theory Spec2Isabelle
  imports Complex_Main "HOL-Library.Word" "HOL-Library.Sublist" "HOL-Library.Multiset"
begin

section \<open>Huffman coding: the embedding of Chapter6-7/huffman-coding.cpp\<close>

subsection \<open>Nodes\<close>

text \<open>
  \<^verbatim>\<open>struct Node { char character; int frequency; Node *left, *right; }\<close>.
  A pointer to a node is a \<open>node option\<close>, the null pointer is \<open>None\<close>. The 32-bit
  \<^verbatim>\<open>int\<close> is a \<open>32 word\<close> read by \<open>sint\<close>: additions wrap around, as they do
  on the usual targets (the language leaves signed overflow undefined). Counts stay below
  2 ^ 31, where nothing wraps, for texts of fewer than 2 ^ 31 symbols.
\<close>

datatype node =
  Node (character: char) (frequency: "32 word") (left: "node option") (right: "node option")

definition isLeaf :: "node \<Rightarrow> bool" where
  "isLeaf n = (left n = None \<and> right n = None)"

text \<open>\<^verbatim>\<open>Compare::operator()\<close>: \<^verbatim>\<open>a->frequency > b->frequency\<close>, on signed ints.\<close>

definition Compare :: "node \<Rightarrow> node \<Rightarrow> bool" where
  "Compare a b = (sint (frequency b) < sint (frequency a))"

subsection \<open>The priority queue\<close>

text \<open>
  \<^verbatim>\<open>priority_queue<Node*, vector<Node*>, Compare>\<close>. The queue is the list of its
  contents. \<^verbatim>\<open>top()\<close> is an element that \<open>Compare\<close> puts before no other element of
  the queue; which one among several such elements is not fixed by the language, and
  neither is the order in which the frequency table is walked when the queue is filled.
  Both choices are the parameter \<open>tie\<close>: it numbers the candidate that \<^verbatim>\<open>top()\<close>
  returns for the given contents. Every theorem below holds for every \<open>tie\<close>.
  \<^verbatim>\<open>pop()\<close> removes that element; the model compares nodes by value where the code
  compares pointers, and of two equal nodes it does not matter which one goes. The loop
  calls \<^verbatim>\<open>top()\<close> on a queue of two or more elements only; the call after the loop,
  which can meet an empty queue, is guarded in \<open>buildTree\<close> below.
\<close>

definition pq_push :: "node \<Rightarrow> node list \<Rightarrow> node list" where
  "pq_push n pq = pq @ [n]"

definition pq_candidates :: "node list \<Rightarrow> node list" where
  "pq_candidates pq = filter (\<lambda>a. list_all (\<lambda>b. \<not> Compare a b) pq) pq"

definition pq_top :: "(node list \<Rightarrow> nat) \<Rightarrow> node list \<Rightarrow> node" where
  "pq_top tie pq = pq_candidates pq ! (tie pq mod length (pq_candidates pq))"

definition pq_pop :: "(node list \<Rightarrow> nat) \<Rightarrow> node list \<Rightarrow> node list" where
  "pq_pop tie pq = remove1 (pq_top tie pq) pq"

text \<open>The choice used to run the model: the first candidate in the order of insertion.\<close>

definition first_tie :: "node list \<Rightarrow> nat" where
  "first_tie pq = 0"

lemma pq_candidates_nonempty: "pq \<noteq> [] \<Longrightarrow> pq_candidates pq \<noteq> []"
proof -
  assume ne: "pq \<noteq> []"
  define m where "m = Min (set (map (\<lambda>n. sint (frequency n)) pq))"
  have "m \<in> set (map (\<lambda>n. sint (frequency n)) pq)"
    unfolding m_def using ne by (intro Min_in) auto
  then obtain a where a: "a \<in> set pq" "sint (frequency a) = m" by auto
  have "\<forall>b \<in> set pq. m \<le> sint (frequency b)"
    unfolding m_def by (auto intro!: Min_le)
  with a have "a \<in> set (pq_candidates pq)"
    by (auto simp: pq_candidates_def list_all_iff Compare_def)
  then show ?thesis by auto
qed

lemma pq_top_candidate: "pq \<noteq> [] \<Longrightarrow> pq_top tie pq \<in> set (pq_candidates pq)"
  using pq_candidates_nonempty [of pq] by (simp add: pq_top_def)

lemma pq_top_in: "pq \<noteq> [] \<Longrightarrow> pq_top tie pq \<in> set pq"
  using pq_top_candidate [of pq tie] by (simp add: pq_candidates_def)

lemma length_pq_pop: "pq \<noteq> [] \<Longrightarrow> Suc (length (pq_pop tie pq)) = length pq"
proof -
  assume ne: "pq \<noteq> []"
  then have "pq_top tie pq \<in> set pq" by (rule pq_top_in)
  then have "length (pq_pop tie pq) = length pq - 1"
    by (simp add: pq_pop_def length_remove1)
  moreover from ne have "0 < length pq" by simp
  ultimately show ?thesis by simp
qed

subsection \<open>The codec\<close>

text \<open>
  \<^verbatim>\<open>class HuffmanCoding { Node* root; unordered_map<char, string> codes;
  unordered_map<char, int> frequencies; }\<close>. The code table is only read and written by
  key; the frequency table is also walked, so it is an association list with one entry
  per key. The class has no constructor: a new object has empty tables, and its root
  pointer, which the code leaves uninitialised, is \<open>None\<close>.
\<close>

record HuffmanCoding =
  root :: "node option"
  codes :: "char \<rightharpoonup> string"
  frequencies :: "(char \<times> 32 word) list"

definition new_HuffmanCoding :: HuffmanCoding where
  "new_HuffmanCoding = \<lparr>root = None, codes = Map.empty, frequencies = []\<rparr>"

text \<open>What the code does outside the language's defined behaviour.\<close>

datatype undefined_behaviour = TopOfEmptyQueue | NullDereference

text \<open>\<^verbatim>\<open>frequencies[c]++\<close>: a missing key is inserted with 0 first.\<close>

fun increment :: "(char \<times> 32 word) list \<Rightarrow> char \<Rightarrow> (char \<times> 32 word) list" where
  "increment [] c = [(c, 1)]"
| "increment ((k, v) # kvs) c =
     (if k = c then (k, v + 1) # kvs else (k, v) # increment kvs c)"

text \<open>Step 3, \<^verbatim>\<open>generateCodes(node, code)\<close>, writing into the code table.\<close>

fun generateCodes :: "node option \<Rightarrow> string \<Rightarrow> (char \<rightharpoonup> string) \<Rightarrow> (char \<rightharpoonup> string)" where
  "generateCodes None code cs = cs"
| "generateCodes (Some (Node c f l r)) code cs =
     (if isLeaf (Node c f l r) then cs(c \<mapsto> (if code = [] then ''0'' else code))
      else generateCodes r (code @ ''1'') (generateCodes l (code @ ''0'') cs))"

lemma isLeaf_Node [simp]: "isLeaf (Node c f l r) = (l = None \<and> r = None)"
  by (simp add: isLeaf_def)

text \<open>The merge loop of \<^verbatim>\<open>buildTree\<close>: \<^verbatim>\<open>while (pq.size() > 1)\<close>.\<close>

function merge_loop :: "(node list \<Rightarrow> nat) \<Rightarrow> node list \<Rightarrow> node list" where
  "merge_loop tie pq =
     (if length pq > 1 then
        (let l = pq_top tie pq; pq1 = pq_pop tie pq;
             r = pq_top tie pq1; pq2 = pq_pop tie pq1;
             parent = Node (CHR 0x00) (frequency l + frequency r) (Some l) (Some r)
         in merge_loop tie (pq_push parent pq2))
      else pq)"
  by pat_completeness auto
termination
proof (relation "measure (\<lambda>(tie, pq). length pq)")
  show "wf (measure (\<lambda>(tie, pq). length pq))" by simp
next
  fix tie :: "node list \<Rightarrow> nat" and pq :: "node list" and l pq1 r pq2 parent
  assume big: "1 < length pq" and pq1: "pq1 = pq_pop tie pq" and pq2: "pq2 = pq_pop tie pq1"
  from big have "pq \<noteq> []" by auto
  then have l1: "Suc (length pq1) = length pq" unfolding pq1 by (rule length_pq_pop)
  with big have "pq1 \<noteq> []" by auto
  then have "Suc (length pq2) = length pq1" unfolding pq2 by (rule length_pq_pop)
  with l1 show "((tie, pq_push parent pq2), (tie, pq)) \<in> measure (\<lambda>(tie, pq). length pq)"
    by (simp add: pq_push_def)
qed

declare merge_loop.simps [simp del]

text \<open>
  \<^verbatim>\<open>buildTree(text)\<close>: count into the frequency table the object already has, push one
  leaf per entry, merge, take the top of the queue as the root and generate the codes
  into the code table the object already has.
\<close>

definition leaves_of :: "(char \<times> 32 word) list \<Rightarrow> node list" where
  "leaves_of fs = foldl (\<lambda>pq (c, f). pq_push (Node c f None None) pq) [] fs"

definition buildTree ::
  "(node list \<Rightarrow> nat) \<Rightarrow> HuffmanCoding \<Rightarrow> string \<Rightarrow> undefined_behaviour + HuffmanCoding" where
  "buildTree tie hc text =
     (let fs = foldl increment (frequencies hc) text;
          pq = merge_loop tie (leaves_of fs)
      in if pq = [] then Inl TopOfEmptyQueue
         else (let r = pq_top tie pq
               in Inr \<lparr>root = Some r, codes = generateCodes (Some r) [] (codes hc),
                       frequencies = fs\<rparr>))"

text \<open>
  Step 4, \<^verbatim>\<open>encode(text)\<close>. \<^verbatim>\<open>codes[c]\<close> on a missing key inserts the empty string
  and returns it, so the call also returns the object.
\<close>

fun encode_loop :: "(char \<rightharpoonup> string) \<Rightarrow> string \<Rightarrow> string \<Rightarrow> (char \<rightharpoonup> string) \<times> string" where
  "encode_loop cs [] result = (cs, result)"
| "encode_loop cs (c # text) result =
     (case cs c of
        None \<Rightarrow> encode_loop (cs(c \<mapsto> [])) text (result @ [])
      | Some code \<Rightarrow> encode_loop cs text (result @ code))"

definition encode :: "HuffmanCoding \<Rightarrow> string \<Rightarrow> HuffmanCoding \<times> string" where
  "encode hc text =
     (let (cs, result) = encode_loop (codes hc) text [] in (hc\<lparr>codes := cs\<rparr>, result))"

text \<open>Step 5, \<^verbatim>\<open>decode(encoded)\<close>. Reading a field through a null pointer is undefined.\<close>

fun decode_loop ::
  "node option \<Rightarrow> node option \<Rightarrow> string \<Rightarrow> string \<Rightarrow> undefined_behaviour + string" where
  "decode_loop rt current [] result = Inr result"
| "decode_loop rt current (b # encoded) result =
     (case current of
        None \<Rightarrow> Inl NullDereference
      | Some cur \<Rightarrow>
          (let current' = (if b = CHR ''0'' then left cur else right cur)
           in case current' of
                None \<Rightarrow> Inl NullDereference
              | Some nxt \<Rightarrow>
                  if isLeaf nxt then decode_loop rt rt encoded (result @ [character nxt])
                  else decode_loop rt current' encoded result))"

definition decode :: "HuffmanCoding \<Rightarrow> string \<Rightarrow> undefined_behaviour + string" where
  "decode hc encoded = decode_loop (root hc) (root hc) encoded []"

text \<open>
  \<^verbatim>\<open>main\<close> calls \<^verbatim>\<open>buildTree(text)\<close>, \<^verbatim>\<open>encode(text)\<close> and \<^verbatim>\<open>decode\<close> of the
  result, on one object.
\<close>

definition roundtrip ::
  "(node list \<Rightarrow> nat) \<Rightarrow> HuffmanCoding \<Rightarrow> string \<Rightarrow> undefined_behaviour + string" where
  "roundtrip tie hc text =
     (case buildTree tie hc text of
        Inl e \<Rightarrow> Inl e
      | Inr hc1 \<Rightarrow> (let (hc2, encoded) = encode hc1 text in decode hc2 encoded))"

section \<open>Notions for the proofs\<close>

text \<open>A tree is full when every node has two children or none, as the merge loop builds it.\<close>

fun full :: "node option \<Rightarrow> bool" where
  "full None = False"
| "full (Some (Node c f l r)) = ((l = None \<and> r = None) \<or> (full l \<and> full r))"

text \<open>The leaves of a tree from left to right, each with the path from the root to it.\<close>

fun paths :: "node option \<Rightarrow> (char \<times> string) list" where
  "paths None = []"
| "paths (Some (Node c f l r)) =
     (if l = None \<and> r = None then [(c, [])]
      else map (apsnd ((#) CHR ''0'')) (paths l) @ map (apsnd ((#) CHR ''1'')) (paths r))"

definition symbols :: "node option \<Rightarrow> char list" where
  "symbols n = map fst (paths n)"

definition path_of :: "node option \<Rightarrow> char \<Rightarrow> string" where
  "path_of n c = (case map_of (paths n) c of None \<Rightarrow> [] | Some p \<Rightarrow> p)"

text \<open>A character of the encoded input as decode reads it: 0, or else 1.\<close>

definition as_bit :: "char \<Rightarrow> char" where
  "as_bit b = (if b = CHR ''0'' then CHR ''0'' else CHR ''1'')"

text \<open>What \<^verbatim>\<open>codes[c]\<close> returns: the code of the symbol, or the empty string.\<close>

definition code_or_empty :: "(char \<rightharpoonup> string) \<Rightarrow> char \<Rightarrow> string" where
  "code_or_empty cs c = (case cs c of None \<Rightarrow> [] | Some code \<Rightarrow> code)"

text \<open>A code table is prefix-free when no code is a prefix of the code of another symbol.\<close>

definition prefix_free :: "(char \<rightharpoonup> string) \<Rightarrow> bool" where
  "prefix_free cs = (\<forall>a b x y. cs a = Some x \<and> cs b = Some y \<and> a \<noteq> b \<longrightarrow> \<not> prefix x y)"

text \<open>What \<^verbatim>\<open>frequencies[c]\<close> reads: the count of the symbol, 0 when it has no entry.\<close>

definition count_of :: "(char \<times> 32 word) list \<Rightarrow> char \<Rightarrow> 32 word" where
  "count_of fs c = (case map_of fs c of None \<Rightarrow> 0 | Some v \<Rightarrow> v)"

text \<open>The symbols held by the trees of a queue.\<close>

definition queue_symbols :: "node list \<Rightarrow> char multiset" where
  "queue_symbols pq = (\<Sum>n\<in>#mset pq. mset (symbols (Some n)))"

text \<open>One round of the merge loop.\<close>

definition merge_step :: "(node list \<Rightarrow> nat) \<Rightarrow> node list \<Rightarrow> node list" where
  "merge_step tie pq =
     (let l = pq_top tie pq; pq1 = pq_pop tie pq; r = pq_top tie pq1; pq2 = pq_pop tie pq1
      in pq_push (Node (CHR 0x00) (frequency l + frequency r) (Some l) (Some r)) pq2)"

text \<open>
  The leaves of a tree with their frequencies and paths; the weight of a tree is the sum
  of its leaves' frequencies and its cost the number of bits its leaves' symbols take,
  both as natural numbers. A tree is honest when the frequency stored in every inner
  node is that sum, that is, when no addition has wrapped around.
\<close>

datatype leaf = Leaf (sym: char) (freq: "32 word") (path: string)

definition deeper :: "char \<Rightarrow> leaf \<Rightarrow> leaf" where
  "deeper b lf = Leaf (sym lf) (freq lf) (b # path lf)"

fun leaves :: "node option \<Rightarrow> leaf list" where
  "leaves None = []"
| "leaves (Some (Node c f l r)) =
     (if l = None \<and> r = None then [Leaf c f []]
      else map (deeper (CHR ''0'')) (leaves l) @ map (deeper (CHR ''1'')) (leaves r))"

definition cost :: "node option \<Rightarrow> nat" where
  "cost n = (\<Sum>lf\<leftarrow>leaves n. unat (freq lf) * length (path lf))"

definition weight :: "node option \<Rightarrow> nat" where
  "weight n = (\<Sum>lf\<leftarrow>leaves n. unat (freq lf))"

definition table :: "node option \<Rightarrow> (char \<times> 32 word) list" where
  "table n = map (\<lambda>lf. (sym lf, freq lf)) (leaves n)"

fun honest :: "node option \<Rightarrow> bool" where
  "honest None = True"
| "honest (Some (Node c f l r)) =
     ((l = None \<and> r = None) \<or> (honest l \<and> honest r \<and> unat f = weight l + weight r))"

definition qweights :: "node list \<Rightarrow> nat multiset" where
  "qweights pq = image_mset (\<lambda>n. weight (Some n)) (mset pq)"

definition qcost :: "node list \<Rightarrow> nat" where
  "qcost pq = (\<Sum>n\<in>#mset pq. cost (Some n))"

definition qtable :: "node list \<Rightarrow> (char \<times> 32 word) multiset" where
  "qtable pq = (\<Sum>n\<in>#mset pq. mset (table (Some n)))"

definition sound_queue :: "node list \<Rightarrow> bool" where
  "sound_queue pq =
     ((\<forall>n \<in> set pq. full (Some n) \<and> honest (Some n)) \<and> sum_mset (qweights pq) < 2 ^ 31)"

text \<open>
  Weights paired with depths. \<open>kraft N M\<close> is Kraft's inequality for the depths of \<open>M\<close>,
  none above \<open>N\<close>, scaled by \<open>2 ^ N\<close>; \<open>pcost\<close> is the number of bits when every weight
  is coded at its depth.
\<close>

definition ksum :: "nat \<Rightarrow> (nat \<times> nat) multiset \<Rightarrow> nat" where
  "ksum N M = (\<Sum>p\<in>#M. 2 ^ (N - snd p))"

definition kraft :: "nat \<Rightarrow> (nat \<times> nat) multiset \<Rightarrow> bool" where
  "kraft N M = ((\<forall>p\<in>#M. snd p \<le> N) \<and> ksum N M \<le> 2 ^ N)"

definition pcost :: "(nat \<times> nat) multiset \<Rightarrow> nat" where
  "pcost M = (\<Sum>p\<in>#M. fst p * snd p)"

definition bounded_queue :: "nat \<Rightarrow> nat \<Rightarrow> node list \<Rightarrow> bool" where
  "bounded_queue N B pq =
     (\<exists>M. kraft N M \<and> image_mset fst M = qweights pq \<and> qcost pq + pcost M \<le> B)"

text \<open>The fixed-width code: every symbol of the frequency table at depth 8.\<close>

definition flat :: "(char \<times> 32 word) list \<Rightarrow> (nat \<times> nat) multiset" where
  "flat fs = image_mset (\<lambda>x. (unat (snd x), 8)) (mset fs)"

text \<open>The text of all 256 symbols, each once.\<close>

definition all_chars :: string where
  "all_chars = map char_of [0..<(256::nat)]"

section \<open>Trees, codes and the decoder\<close>

lemma symbols_simps [simp]:
  "symbols None = []"
  "symbols (Some (Node c f l r)) = (if l = None \<and> r = None then [c] else symbols l @ symbols r)"
  by (simp_all add: symbols_def comp_def)

lemma symbols_path: "(c, p) \<in> set (paths n) \<Longrightarrow> c \<in> set (symbols n)"
  by (force simp: symbols_def)

lemma full_paths_nonempty: "full n \<Longrightarrow> paths n \<noteq> []"
  by (induction n rule: paths.induct) auto

lemma paths_leaf_iff:
  "full (Some n) \<Longrightarrow> (c, []) \<in> set (paths (Some n)) \<longleftrightarrow> isLeaf n \<and> c = character n"
  by (cases n) auto

lemma generateCodes_other:
  "c \<notin> set (symbols n) \<Longrightarrow> generateCodes n code cs c = cs c"
  by (induction n code cs rule: generateCodes.induct) auto

lemma generateCodes_inner:
  "\<not> (l = None \<and> r = None) \<Longrightarrow>
   generateCodes (Some (Node c f l r)) code cs =
     generateCodes r (code @ ''1'') (generateCodes l (code @ ''0'') cs)"
  by (simp only: generateCodes.simps isLeaf_Node if_False)

lemma generateCodes_path:
  "distinct (symbols n) \<Longrightarrow> (c, p) \<in> set (paths n) \<Longrightarrow>
   generateCodes n code cs c = Some (if code @ p = [] then ''0'' else code @ p)"
proof (induction n code cs arbitrary: p rule: generateCodes.induct)
  case (1 code cs)
  then show ?case by simp
next
  case (2 c' f l r code cs)
  show ?case
  proof (cases "l = None \<and> r = None")
    case True
    with 2 show ?thesis by auto
  next
    case False
    from "2.prems" False have d: "distinct (symbols l)" "distinct (symbols r)"
      "set (symbols l) \<inter> set (symbols r) = {}"
      by auto
    from "2.prems"(2) False consider
      (L) q where "p = CHR ''0'' # q" "(c, q) \<in> set (paths l)"
      | (R) q where "p = CHR ''1'' # q" "(c, q) \<in> set (paths r)"
      by auto
    then show ?thesis
    proof cases
      case L
      then have "c \<in> set (symbols l)" by (auto dest: symbols_path)
      with d have "c \<notin> set (symbols r)" by auto
      then have "generateCodes (Some (Node c' f l r)) code cs c
          = generateCodes l (code @ ''0'') cs c"
        by (simp add: generateCodes_inner [OF False] generateCodes_other del: generateCodes.simps)
      also have "\<dots> = Some (if (code @ ''0'') @ q = [] then ''0'' else (code @ ''0'') @ q)"
        using False d(1) L(2) by (intro "2.IH"(1)) auto
      finally show ?thesis using L(1) by simp
    next
      case R
      have "generateCodes (Some (Node c' f l r)) code cs c
          = generateCodes r (code @ ''1'') (generateCodes l (code @ ''0'') cs) c"
        by (simp only: generateCodes_inner [OF False])
      also have "\<dots> = Some (if (code @ ''1'') @ q = [] then ''0'' else (code @ ''1'') @ q)"
        using False d(2) R(2) by (intro "2.IH"(2)) auto
      finally show ?thesis using R(1) by simp
    qed
  qed
qed

lemma decode_loop_path:
  "full n \<Longrightarrow> (c, p) \<in> set (paths n) \<Longrightarrow> p \<noteq> [] \<Longrightarrow>
   decode_loop rt n (p @ rest) res = decode_loop rt rt rest (res @ [c])"
proof (induction n arbitrary: p rule: paths.induct)
  case 1
  then show ?case by simp
next
  case (2 c' f l r)
  from "2.prems" have nl: "\<not> (l = None \<and> r = None)" by auto
  with "2.prems"(1) have fl: "full l" "full r" by auto
  then obtain ln rn where lr: "l = Some ln" "r = Some rn" by (cases l; cases r) auto
  from "2.prems"(2) nl consider
    (L) q where "p = CHR ''0'' # q" "(c, q) \<in> set (paths l)"
    | (R) q where "p = CHR ''1'' # q" "(c, q) \<in> set (paths r)"
    by auto
  then show ?case
  proof cases
    case L
    show ?thesis
    proof (cases "q = []")
      case True
      with L fl lr have "isLeaf ln \<and> c = character ln" by (simp add: paths_leaf_iff)
      with L True lr show ?thesis by simp
    next
      case False
      with L fl lr have "\<not> isLeaf ln" using paths_leaf_iff [of ln] by (cases ln) auto
      moreover have "decode_loop rt l (q @ rest) res = decode_loop rt rt rest (res @ [c])"
        using nl fl L False by (intro "2.IH"(1)) auto
      ultimately show ?thesis using L lr by simp
    qed
  next
    case R
    show ?thesis
    proof (cases "q = []")
      case True
      with R fl lr have "isLeaf rn \<and> c = character rn" by (simp add: paths_leaf_iff)
      with R True lr show ?thesis by simp
    next
      case False
      with R fl lr have "\<not> isLeaf rn" using paths_leaf_iff [of rn] by (cases rn) auto
      moreover have "decode_loop rt r (q @ rest) res = decode_loop rt rt rest (res @ [c])"
        using nl fl R False by (intro "2.IH"(2)) auto
      ultimately show ?thesis using R lr by simp
    qed
  qed
qed

lemma decode_loop_partial:
  "full n \<Longrightarrow> (c, q) \<in> set (paths n) \<Longrightarrow> strict_prefix p q \<Longrightarrow>
   decode_loop rt n p res = Inr res"
proof (induction n arbitrary: p q rule: paths.induct)
  case 1
  then show ?case by simp
next
  case (2 c' f l r)
  show ?case
  proof (cases p)
    case Nil
    then show ?thesis by simp
  next
    case (Cons b p')
    with "2.prems"(3) obtain q' where q: "q = b # q'" "strict_prefix p' q'"
      by (cases q) auto
    have nl: "\<not> (l = None \<and> r = None)"
    proof
      assume "l = None \<and> r = None"
      with "2.prems"(2) q(1) show False by simp
    qed
    with "2.prems"(1) have fl: "full l" "full r" by auto
    then obtain ln rn where lr: "l = Some ln" "r = Some rn" by (cases l; cases r) auto
    from q(2) have q'ne: "q' \<noteq> []" by auto
    from "2.prems"(2) nl q(1) consider
      (L) "b = CHR ''0''" "(c, q') \<in> set (paths l)"
      | (R) "b = CHR ''1''" "(c, q') \<in> set (paths r)"
      by auto
    then show ?thesis
    proof cases
      case L
      with q'ne fl lr have "\<not> isLeaf ln" using paths_leaf_iff [of ln] by (cases ln) auto
      moreover have "decode_loop rt l p' res = Inr res"
        using nl fl L q(2) by (intro "2.IH"(1)) auto
      ultimately show ?thesis using L lr Cons by simp
    next
      case R
      with q'ne fl lr have "\<not> isLeaf rn" using paths_leaf_iff [of rn] by (cases rn) auto
      moreover have "decode_loop rt r p' res = Inr res"
        using nl fl R q(2) by (intro "2.IH"(2)) auto
      ultimately show ?thesis using R lr Cons by simp
    qed
  qed
qed

lemma path_of_in:
  "c \<in> set (symbols n) \<Longrightarrow> (c, path_of n c) \<in> set (paths n)"
proof -
  assume "c \<in> set (symbols n)"
  then obtain p where "map_of (paths n) c = Some p"
    by (cases "map_of (paths n) c") (auto simp: symbols_def map_of_eq_None_iff)
  then show ?thesis by (auto simp: path_of_def dest: map_of_SomeD)
qed

lemma paths_inner_nonempty:
  "\<not> isLeaf n \<Longrightarrow> (c, p) \<in> set (paths (Some n)) \<Longrightarrow> p \<noteq> []"
  by (cases n) auto

lemma decode_loop_concat:
  assumes "full rt" and "rt = Some n" and "\<not> isLeaf n"
    and "set text \<subseteq> set (symbols rt)"
  shows "decode_loop rt rt (concat (map (path_of rt) text) @ rest) res
         = decode_loop rt rt rest (res @ text)"
  using assms(4)
proof (induction "text" arbitrary: res)
  case Nil
  then show ?case by simp
next
  case (Cons c ts)
  then have in_paths: "(c, path_of rt c) \<in> set (paths rt)" by (simp add: path_of_in)
  with assms(2,3) have ne: "path_of rt c \<noteq> []" using paths_inner_nonempty by blast
  have "decode_loop rt rt (path_of rt c @ (concat (map (path_of rt) ts) @ rest)) res
      = decode_loop rt rt (concat (map (path_of rt) ts) @ rest) (res @ [c])"
    using assms(1) in_paths ne by (rule decode_loop_path)
  also have "\<dots> = decode_loop rt rt rest ((res @ [c]) @ ts)"
    using Cons.prems by (intro Cons.IH) auto
  finally show ?case by simp
qed

lemma decode_loop_as_bit:
  "decode_loop rt cur (map as_bit bs) res = decode_loop rt cur bs res"
proof (induction rt cur bs res rule: decode_loop.induct)
  case (1 rt current result)
  then show ?case by simp
next
  case (2 rt current b encoded result)
  show ?case
  proof (cases current)
    case None
    then show ?thesis by simp
  next
    case (Some cur)
    have same: "(if as_bit b = CHR ''0'' then left cur else right cur)
        = (if b = CHR ''0'' then left cur else right cur)"
      by (simp add: as_bit_def)
    show ?thesis
    proof (cases "if b = CHR ''0'' then left cur else right cur")
      case None
      with Some same show ?thesis by simp
    next
      case (Some nxt)
      with \<open>current = Some cur\<close> same "2.IH"(1) [OF \<open>current = Some cur\<close> refl Some]
        "2.IH"(2) [OF \<open>current = Some cur\<close> refl Some]
      show ?thesis by (cases "isLeaf nxt") simp_all
    qed
  qed
qed

lemma encode_loop_eq:
  "encode_loop cs text res =
     ((\<lambda>c. if c \<in> set text \<and> cs c = None then Some [] else cs c),
      res @ concat (map (code_or_empty cs) text))"
proof (induction "text" arbitrary: cs res)
  case Nil
  then show ?case by simp
next
  case (Cons c ts)
  show ?case
  proof (cases "cs c")
    case None
    have step: "encode_loop cs (c # ts) res = encode_loop (cs(c \<mapsto> [])) ts res"
      using None by simp
    have e1: "code_or_empty (cs(c \<mapsto> [])) = code_or_empty cs"
      using None by (auto simp: code_or_empty_def fun_eq_iff)
    have e2: "code_or_empty cs c = []"
      using None by (simp add: code_or_empty_def)
    have e3: "(\<lambda>a. if a \<in> set ts \<and> (cs(c \<mapsto> [])) a = None then Some [] else (cs(c \<mapsto> [])) a)
        = (\<lambda>a. if a \<in> set (c # ts) \<and> cs a = None then Some [] else cs a)"
      using None by (auto simp: fun_eq_iff)
    show ?thesis unfolding step Cons.IH e1 e3 by (simp add: e2)
  next
    case (Some code)
    have step: "encode_loop cs (c # ts) res = encode_loop cs ts (res @ code)"
      using Some by simp
    have e2: "code_or_empty cs c = code"
      using Some by (simp add: code_or_empty_def)
    have e3: "(\<lambda>a. if a \<in> set ts \<and> cs a = None then Some [] else cs a)
        = (\<lambda>a. if a \<in> set (c # ts) \<and> cs a = None then Some [] else cs a)"
      using Some by (auto simp: fun_eq_iff)
    show ?thesis unfolding step Cons.IH e3 by (simp add: e2)
  qed
qed

subsection \<open>The frequency table\<close>

lemma keys_increment:
  "map fst (increment fs c) = (if c \<in> fst ` set fs then map fst fs else map fst fs @ [c])"
  by (induction fs c rule: increment.induct) auto

lemma set_keys_count: "fst ` set (foldl increment fs text) = fst ` set fs \<union> set text"
proof (induction "text" arbitrary: fs)
  case Nil
  then show ?case by simp
next
  case (Cons c ts)
  have "fst ` set (increment fs c) = insert c (fst ` set fs)"
    by (induction fs c rule: increment.induct) auto
  then show ?case by (simp add: Cons.IH)
qed

lemma distinct_keys_count:
  "distinct (map fst fs) \<Longrightarrow> distinct (map fst (foldl increment fs text))"
proof (induction "text" arbitrary: fs)
  case Nil
  then show ?case by simp
next
  case (Cons c ts)
  from Cons.prems have "distinct (map fst (increment fs c))"
    by (simp add: keys_increment)
  then show ?case by (simp add: Cons.IH)
qed

lemma leaves_of_eq: "leaves_of fs = map (\<lambda>(c, f). Node c f None None) fs"
proof -
  have "foldl (\<lambda>pq (c, f). pq_push (Node c f None None) pq) acc fs
      = acc @ map (\<lambda>(c, f). Node c f None None) fs" for acc
    by (induction fs arbitrary: acc) (auto simp: pq_push_def)
  then show ?thesis by (simp add: leaves_of_def)
qed

lemma leaves_of_full: "n \<in> set (leaves_of fs) \<Longrightarrow> full (Some n)"
  by (auto simp: leaves_of_eq)

lemma leaves_of_symbols: "queue_symbols (leaves_of fs) = mset (map fst fs)"
  by (induction fs) (auto simp: leaves_of_eq queue_symbols_def)

lemma mset_pq_pop: "pq \<noteq> [] \<Longrightarrow> mset pq = add_mset (pq_top tie pq) (mset (pq_pop tie pq))"
  using pq_top_in [of pq tie] by (simp add: pq_pop_def)

lemma pq_top_single: "pq_top tie [n] = n"
  by (simp add: pq_top_def pq_candidates_def Compare_def)

lemma merge_loop_inv:
  "(\<forall>n \<in> set pq. full (Some n)) \<Longrightarrow>
   (\<forall>n \<in> set (merge_loop tie pq). full (Some n))
   \<and> queue_symbols (merge_loop tie pq) = queue_symbols pq
   \<and> length (merge_loop tie pq) = min 1 (length pq)"
proof (induction tie pq rule: merge_loop.induct)
  case (1 tie pq)
  show ?case
  proof (cases "1 < length pq")
    case False
    then show ?thesis using "1.prems" by (simp add: merge_loop.simps)
  next
    case True
    define l where "l = pq_top tie pq"
    define pq1 where "pq1 = pq_pop tie pq"
    define r where "r = pq_top tie pq1"
    define pq2 where "pq2 = pq_pop tie pq1"
    define parent where "parent = Node (CHR 0x00) (frequency l + frequency r) (Some l) (Some r)"
    from True have ne: "pq \<noteq> []" by auto
    then have m1: "mset pq = add_mset l (mset pq1)"
      unfolding l_def pq1_def by (rule mset_pq_pop)
    from ne have "Suc (length pq1) = length pq" unfolding pq1_def by (rule length_pq_pop)
    with True have ne1: "pq1 \<noteq> []" by auto
    then have m2: "mset pq1 = add_mset r (mset pq2)"
      unfolding r_def pq2_def by (rule mset_pq_pop)
    have unfold: "merge_loop tie pq = merge_loop tie (pq_push parent pq2)"
      using True by (subst merge_loop.simps) (simp add: Let_def l_def pq1_def r_def pq2_def parent_def)
    have sets: "set pq = insert l (insert r (set pq2))"
    proof -
      have "set_mset (mset pq) = set_mset (add_mset l (add_mset r (mset pq2)))"
        using m1 m2 by simp
      then show ?thesis by simp
    qed
    with "1.prems" have fl: "full (Some l)" "full (Some r)" "\<forall>n \<in> set pq2. full (Some n)"
      by auto
    then have fp: "\<forall>n \<in> set (pq_push parent pq2). full (Some n)"
      by (auto simp: pq_push_def parent_def)
    have syms: "queue_symbols (pq_push parent pq2) = queue_symbols pq"
      by (simp add: queue_symbols_def pq_push_def m1 m2 parent_def)
    have len: "length (pq_push parent pq2) = length pq - 1"
    proof -
      have "size (mset pq) = Suc (Suc (size (mset pq2)))"
        unfolding m1 m2 by simp
      then show ?thesis by (simp add: pq_push_def)
    qed
    have IH: "(\<forall>n \<in> set (merge_loop tie (pq_push parent pq2)). full (Some n))
      \<and> queue_symbols (merge_loop tie (pq_push parent pq2)) = queue_symbols (pq_push parent pq2)
      \<and> length (merge_loop tie (pq_push parent pq2)) = min 1 (length (pq_push parent pq2))"
      using True fp
      by (intro "1.IH" [OF True l_def pq1_def r_def pq2_def parent_def]) 
    show ?thesis unfolding unfold using IH syms len True by auto
  qed
qed

lemma count_nonempty: "(foldl increment fs text = []) = (fs = [] \<and> text = [])"
  using set_keys_count [of fs "text"] 
  by (metis Un_empty image_is_empty set_empty)

lemma buildTree_result:
  assumes "frequencies hc \<noteq> [] \<or> text \<noteq> []"
  obtains r where
    "buildTree tie hc text =
       Inr \<lparr>root = Some r, codes = generateCodes (Some r) [] (codes hc),
            frequencies = foldl increment (frequencies hc) text\<rparr>"
    "full (Some r)"
    "mset (symbols (Some r)) = mset (map fst (foldl increment (frequencies hc) text))"
proof -
  define fs where "fs = foldl increment (frequencies hc) text"
  define pq where "pq = merge_loop tie (leaves_of fs)"
  from assms have "fs \<noteq> []" by (simp add: fs_def count_nonempty)
  then have l0: "1 \<le> length (leaves_of fs)" by (cases fs) (simp_all add: leaves_of_eq)
  have inv: "(\<forall>n \<in> set pq. full (Some n)) \<and> queue_symbols pq = queue_symbols (leaves_of fs)
      \<and> length pq = min 1 (length (leaves_of fs))"
    unfolding pq_def by (rule merge_loop_inv) (simp add: leaves_of_full)
  with l0 have "length pq = 1" by simp
  then obtain r where r: "pq = [r]" by (cases pq) auto
  with inv have "full (Some r)" by simp
  moreover from inv r have "mset (symbols (Some r)) = mset (map fst fs)"
    by (simp add: queue_symbols_def leaves_of_symbols [unfolded queue_symbols_def])
  moreover have "buildTree tie hc text =
       Inr \<lparr>root = Some r, codes = generateCodes (Some r) [] (codes hc), frequencies = fs\<rparr>"
    using r by (simp add: buildTree_def Let_def fs_def [symmetric] pq_def [symmetric] pq_top_single
        del: generateCodes.simps)
  ultimately show ?thesis using that by (simp add: fs_def)
qed

lemma root_inner:
  "full (Some r) \<Longrightarrow> 2 \<le> length (symbols (Some r)) \<Longrightarrow> \<not> isLeaf r"
  by (cases r) auto

lemma paths_unique:
  "full n \<Longrightarrow> (a, p) \<in> set (paths n) \<Longrightarrow> (b, q) \<in> set (paths n) \<Longrightarrow> prefix p q \<Longrightarrow>
   a = b \<and> p = q"
proof (induction n arbitrary: p q rule: paths.induct)
  case 1
  then show ?case by simp
next
  case (2 c f l r)
  show ?case
  proof (cases "l = None \<and> r = None")
    case True
    with "2.prems" show ?thesis by simp
  next
    case False
    with "2.prems"(1) have fl: "full l" "full r" by auto
    from "2.prems"(2) False consider
      (L) p' where "p = CHR ''0'' # p'" "(a, p') \<in> set (paths l)"
      | (R) p' where "p = CHR ''1'' # p'" "(a, p') \<in> set (paths r)"
      by auto
    then show ?thesis
    proof cases
      case L
      with "2.prems"(4) obtain q' where q: "q = CHR ''0'' # q'" "prefix p' q'"
        by (cases q) auto
      with "2.prems"(3) False have "(b, q') \<in> set (paths l)" by auto
      with "2.IH"(1) [OF False fl(1) L(2) _ q(2)] L(1) q(1) show ?thesis by simp
    next
      case R
      with "2.prems"(4) obtain q' where q: "q = CHR ''1'' # q'" "prefix p' q'"
        by (cases q) auto
      with "2.prems"(3) False have "(b, q') \<in> set (paths r)" by auto
      with "2.IH"(2) [OF False fl(2) R(2) _ q(2)] R(1) q(1) show ?thesis by simp
    qed
  qed
qed

lemma paths_leaf: "isLeaf n \<Longrightarrow> paths (Some n) = [(character n, [])]"
  by (cases n) auto

lemma generateCodes_root:
  assumes "full (Some r)" and "distinct (symbols (Some r))" and "c \<in> set (symbols (Some r))"
  shows "generateCodes (Some r) [] cs c = Some (if isLeaf r then ''0'' else path_of (Some r) c)"
proof -
  from assms(3) have in_paths: "(c, path_of (Some r) c) \<in> set (paths (Some r))"
    by (rule path_of_in)
  have "generateCodes (Some r) [] cs c
      = Some (if [] @ path_of (Some r) c = [] then ''0'' else [] @ path_of (Some r) c)"
    using assms(2) in_paths by (rule generateCodes_path)
  moreover have "(path_of (Some r) c = []) = isLeaf r"
    using in_paths paths_leaf [of r] paths_inner_nonempty [of r c "path_of (Some r) c"]
    by auto
  ultimately show ?thesis by simp
qed

lemma built_codec:
  assumes "distinct (map fst (frequencies hc))" and "frequencies hc \<noteq> [] \<or> text \<noteq> []"
  obtains r where
    "buildTree tie hc text =
       Inr \<lparr>root = Some r, codes = generateCodes (Some r) [] (codes hc),
            frequencies = foldl increment (frequencies hc) text\<rparr>"
    "full (Some r)" "distinct (symbols (Some r))"
    "set (symbols (Some r)) = fst ` set (frequencies hc) \<union> set text"
    "length (symbols (Some r)) = card (fst ` set (frequencies hc) \<union> set text)"
proof -
  from assms(2) obtain r where r:
    "buildTree tie hc text =
       Inr \<lparr>root = Some r, codes = generateCodes (Some r) [] (codes hc),
            frequencies = foldl increment (frequencies hc) text\<rparr>"
    "full (Some r)"
    "mset (symbols (Some r)) = mset (map fst (foldl increment (frequencies hc) text))"
    by (rule buildTree_result)
  have dk: "distinct (map fst (foldl increment (frequencies hc) text))"
    using assms(1) by (rule distinct_keys_count)
  with r(3) have d: "distinct (symbols (Some r))"
    by (metis mset_eq_imp_distinct_iff)
  have "set (symbols (Some r)) = set (map fst (foldl increment (frequencies hc) text))"
    using r(3) by (rule mset_eq_setD)
  then have st: "set (symbols (Some r)) = fst ` set (frequencies hc) \<union> set text"
    by (simp add: set_keys_count)
  have "length (symbols (Some r)) = card (set (symbols (Some r)))"
    using d by (simp add: distinct_card)
  with st have "length (symbols (Some r)) = card (fst ` set (frequencies hc) \<union> set text)"
    by simp
  with r(1,2) d st show ?thesis by (rule that)
qed

lemma encode_known:
  assumes "\<forall>c \<in> set t. codes hc c \<noteq> None"
  shows "encode hc t = (hc, concat (map (code_or_empty (codes hc)) t))"
proof -
  have "(\<lambda>c. if c \<in> set t \<and> codes hc c = None then Some [] else codes hc c) = codes hc"
    using assms by (auto simp: fun_eq_iff)
  then show ?thesis by (simp add: encode_def encode_loop_eq)
qed

lemma codec_inner:
  assumes "full (Some r)" and "distinct (symbols (Some r))" and "\<not> isLeaf r"
    and "set t \<subseteq> set (symbols (Some r))"
    and "hc = \<lparr>root = Some r, codes = generateCodes (Some r) [] cs, frequencies = fs\<rparr>"
  shows "encode hc t = (hc, concat (map (path_of (Some r)) t))"
    and "decode hc (concat (map (path_of (Some r)) t) @ rest)
         = decode_loop (Some r) (Some r) rest t"
proof -
  have cs: "codes hc c = Some (path_of (Some r) c)" if "c \<in> set (symbols (Some r))" for c
    using generateCodes_root [OF assms(1,2) that, of cs] assms(3,5) by simp
  with assms(4) have "\<forall>c \<in> set t. codes hc c \<noteq> None" by auto
  then have "encode hc t = (hc, concat (map (code_or_empty (codes hc)) t))"
    by (rule encode_known)
  moreover have "map (code_or_empty (codes hc)) t = map (path_of (Some r)) t"
    using assms(4) cs by (auto simp: code_or_empty_def)
  ultimately show "encode hc t = (hc, concat (map (path_of (Some r)) t))" by simp
  have "decode_loop (Some r) (Some r) (concat (map (path_of (Some r)) t) @ rest) []
      = decode_loop (Some r) (Some r) rest ([] @ t)"
    using assms(1) refl assms(3,4) by (rule decode_loop_concat)
  then show "decode hc (concat (map (path_of (Some r)) t) @ rest)
         = decode_loop (Some r) (Some r) rest t"
    by (simp add: decode_def assms(5))
qed

lemma roundtrip_several_symbols:
  assumes "distinct (map fst (frequencies hc))"
    and "2 \<le> card (fst ` set (frequencies hc) \<union> set text)"
  shows "roundtrip tie hc text = Inr text"
proof -
  from assms(2) have "frequencies hc \<noteq> [] \<or> text \<noteq> []" by auto
  with assms(1) obtain r where r:
    "buildTree tie hc text =
       Inr \<lparr>root = Some r, codes = generateCodes (Some r) [] (codes hc),
            frequencies = foldl increment (frequencies hc) text\<rparr>"
    "full (Some r)" "distinct (symbols (Some r))"
    "set (symbols (Some r)) = fst ` set (frequencies hc) \<union> set text"
    "length (symbols (Some r)) = card (fst ` set (frequencies hc) \<union> set text)"
    by (rule built_codec)
  define hc1 where "hc1 = \<lparr>root = Some r, codes = generateCodes (Some r) [] (codes hc),
            frequencies = foldl increment (frequencies hc) text\<rparr>"
  from r(2,5) assms(2) have inner: "\<not> isLeaf r" by (intro root_inner) auto
  from r(4) have sub: "set text \<subseteq> set (symbols (Some r))" by auto
  note c = codec_inner [OF r(2,3) inner sub hc1_def]
  have "decode hc1 (concat (map (path_of (Some r)) text) @ []) = Inr text"
    unfolding c(2) by simp
  then show ?thesis
    by (simp add: roundtrip_def r(1) hc1_def [symmetric] c(1) del: generateCodes.simps)
qed

lemma merge_loop_small [simp]: "merge_loop tie [] = []" "merge_loop tie [n] = [n]"
  by (simp_all add: merge_loop.simps)

lemma merge_loop_step:
  "merge_loop tie (a # b # pq) =
     (let l = pq_top tie (a # b # pq); pq1 = pq_pop tie (a # b # pq);
          r = pq_top tie pq1; pq2 = pq_pop tie pq1
      in merge_loop tie (pq_push (Node (CHR 0x00) (frequency l + frequency r) (Some l) (Some r)) pq2))"
  by (subst merge_loop.simps) (simp add: Let_def)

lemmas run_simps = roundtrip_def buildTree_def new_HuffmanCoding_def leaves_of_def
  merge_loop_step pq_push_def pq_top_def pq_pop_def pq_candidates_def Compare_def first_tie_def
  Let_def encode_def decode_def

lemma count_of_increment:
  "count_of (increment fs c) a = (if a = c then count_of fs c + 1 else count_of fs a)"
  by (induction fs c rule: increment.induct) (auto simp: count_of_def)

lemma count_of_count:
  "count_of (foldl increment fs text) a = count_of fs a + of_nat (count_list text a)"
proof (induction "text" arbitrary: fs)
  case Nil
  then show ?case by simp
next
  case (Cons c ts)
  show ?case by (simp add: Cons.IH count_of_increment)
qed

lemma decode_loop_total:
  assumes "full rt" and "rt = Some n" and "\<not> isLeaf n"
  shows "full cur \<Longrightarrow> cur = Some m \<Longrightarrow> \<not> isLeaf m \<Longrightarrow> \<exists>out. decode_loop rt cur bs res = Inr out"
proof (induction bs arbitrary: cur m res)
  case Nil
  then show ?case by simp
next
  case (Cons b bs)
  obtain c f l r where m: "m = Node c f l r" by (cases m)
  with Cons.prems have "full l" "full r" by auto
  then obtain ln rn where lr: "l = Some ln" "r = Some rn" by (cases l; cases r) auto
  define nxt where "nxt = (if b = CHR ''0'' then ln else rn)"
  have fn: "full (Some nxt)" using \<open>full l\<close> \<open>full r\<close> lr by (simp add: nxt_def)
  have step: "decode_loop rt cur (b # bs) res =
      (if isLeaf nxt then decode_loop rt rt bs (res @ [character nxt])
       else decode_loop rt (Some nxt) bs res)"
    using Cons.prems(2) m lr by (simp add: nxt_def)
  show ?case
  proof (cases "isLeaf nxt")
    case True
    with step Cons.IH [OF assms] show ?thesis by simp
  next
    case False
    with step Cons.IH [OF fn refl False] show ?thesis by simp
  qed
qed

section \<open>Kraft's inequality and one merge of the least two weights\<close>

lemma ksum_empty [simp]: "ksum N {#} = 0"
  by (simp add: ksum_def)

lemma pcost_empty [simp]: "pcost {#} = 0"
  by (simp add: pcost_def)

lemma ksum_add [simp]: "ksum N (add_mset p M) = 2 ^ (N - snd p) + ksum N M"
  by (simp add: ksum_def)

lemma pcost_add [simp]: "pcost (add_mset p M) = fst p * snd p + pcost M"
  by (simp add: pcost_def)

lemma ksum_depths: "ksum N M = (\<Sum>d\<in>#image_mset snd M. 2 ^ (N - d))"
  by (induction M) (simp_all add: ksum_def)

lemma kraft_by_depths:
  "kraft N M = ((\<forall>d\<in>#image_mset snd M. d \<le> N) \<and> (\<Sum>d\<in>#image_mset snd M. 2 ^ (N - d)) \<le> (2::nat) ^ N)"
  by (simp add: kraft_def ksum_depths)

lemma kraft_depths:
  "image_mset snd M = image_mset snd M' \<Longrightarrow> kraft N M = kraft N M'"
  by (simp only: kraft_by_depths)

lemma ksum_zero_depths: "\<forall>p\<in>#M. snd p = 0 \<Longrightarrow> ksum N M = size M * 2 ^ N"
  by (induction M) auto

lemma ksum_dvd: "\<forall>p\<in>#M. snd p < D \<Longrightarrow> D \<le> N \<Longrightarrow> 2 ^ (Suc (N - D)) dvd ksum N M"
proof (induction M)
  case empty
  then show ?case by (simp add: ksum_def)
next
  case (add p M)
  from add.prems have "Suc (N - D) \<le> N - snd p" by auto
  then have "(2::nat) ^ (Suc (N - D)) dvd 2 ^ (N - snd p)" by (rule le_imp_power_dvd)
  moreover have "2 ^ (Suc (N - D)) dvd ksum N M" using add by simp
  ultimately show ?case unfolding ksum_add by (rule dvd_add)
qed

lemma parity_step:
  fixes m K T :: nat
  assumes "0 < m" and "2 * m dvd K" and "2 * m dvd T" and "m + K \<le> T"
  shows "2 * m + K \<le> T"
proof -
  from assms(2) obtain q where q: "K = 2 * m * q" by (auto simp: dvd_def)
  from assms(3) obtain q' where q': "T = 2 * m * q'" by (auto simp: dvd_def)
  have "2 * m * q < m + 2 * m * q" using assms(1) by simp
  also have "\<dots> \<le> 2 * m * q'" using assms(4) unfolding q q' .
  finally have "q < q'" using assms(1) by simp
  then have "Suc q \<le> q'" by simp
  then have "2 * m * Suc q \<le> 2 * m * q'" by (rule mult_le_mono2)
  then show ?thesis unfolding q q' by simp
qed

lemma swap_cost:
  fixes a x d D :: nat
  assumes "a \<le> x" and "d \<le> D"
  shows "a * D + x * d \<le> a * d + x * D"
proof -
  from assms obtain e f where "x = a + e" "D = d + f" by (auto simp: le_iff_add)
  then show ?thesis by (simp add: algebra_simps)
qed

lemma normalize:
  "2 \<le> size M \<Longrightarrow> kraft N M \<Longrightarrow>
   \<exists>M' D. image_mset fst M' = image_mset fst M \<and> kraft N M' \<and> pcost M' \<le> pcost M
      \<and> (\<forall>p\<in>#M'. snd p \<le> D) \<and> 2 \<le> count (image_mset snd M') D \<and> 1 \<le> D"
proof (induction "sum_mset (image_mset snd M)" arbitrary: M rule: less_induct)
  case less
  from less.prems(1) have ne: "M \<noteq> {#}" by auto
  define D where "D = Max (snd ` set_mset M)"
  have Dmax: "\<forall>p\<in>#M. snd p \<le> D" unfolding D_def by auto
  have "D \<in> snd ` set_mset M" unfolding D_def using ne by (intro Max_in) auto
  then obtain x where "(x, D) \<in># M" by auto
  then obtain M0 where M: "M = add_mset (x, D) M0" by (auto dest: multi_member_split)
  from less.prems(2) have DN: "D \<le> N" and ks: "ksum N M \<le> 2 ^ N"
    using \<open>(x, D) \<in># M\<close> by (auto simp: kraft_def)
  have D1: "1 \<le> D"
  proof (rule ccontr)
    assume "\<not> 1 \<le> D"
    with Dmax have "\<forall>p\<in>#M. snd p = 0" by auto
    then have "ksum N M = size M * 2 ^ N" by (rule ksum_zero_depths)
    moreover have "2 * 2 ^ N \<le> size M * (2::nat) ^ N" using less.prems(1) by simp
    ultimately show False using ks by simp
  qed
  show ?case
  proof (cases "\<exists>p\<in>#M0. snd p = D")
    case True
    then have "1 \<le> count (image_mset snd M0) D" by (auto simp: Suc_le_eq)
    then have "2 \<le> count (image_mset snd M) D" unfolding M by simp
    with less.prems(2) Dmax D1 show ?thesis by (intro exI [of _ M] exI [of _ D]) simp
  next
    case False
    with Dmax have lower: "\<forall>p\<in>#M0. snd p < D" unfolding M by (auto simp: le_less)
    define M1 where "M1 = add_mset (x, D - 1) M0"
    have dv: "2 * 2 ^ (N - D) dvd ksum N M0" using ksum_dvd [OF lower DN] by simp
    have "Suc (N - D) \<le> N" using D1 DN by simp
    then have "(2::nat) ^ Suc (N - D) dvd 2 ^ N" by (rule le_imp_power_dvd)
    then have dvN: "2 * 2 ^ (N - D) dvd (2::nat) ^ N" by simp
    have "2 ^ (N - D) + ksum N M0 \<le> 2 ^ N" using ks unfolding M by simp
    with dv dvN have "2 * 2 ^ (N - D) + ksum N M0 \<le> 2 ^ N"
      by (intro parity_step) auto
    moreover have "N - (D - 1) = Suc (N - D)" using D1 DN by simp
    ultimately have "ksum N M1 \<le> 2 ^ N" by (simp add: M1_def)
    moreover have "\<forall>p\<in>#M1. snd p \<le> N" using less.prems(2) DN by (auto simp: M1_def M kraft_def)
    ultimately have k1: "kraft N M1" by (simp add: kraft_def)
    have c1: "pcost M1 \<le> pcost M" by (simp add: M1_def M)
    have w1: "image_mset fst M1 = image_mset fst M" by (simp add: M1_def M)
    have s1: "2 \<le> size M1" using less.prems(1) by (simp add: M1_def M)
    have "sum_mset (image_mset snd M1) < sum_mset (image_mset snd M)"
      using D1 by (simp add: M1_def M)
    from less.hyps [OF this s1 k1] obtain M' D' where r:
      "image_mset fst M' = image_mset fst M1 \<and> kraft N M' \<and> pcost M' \<le> pcost M1
      \<and> (\<forall>p\<in>#M'. snd p \<le> D') \<and> 2 \<le> count (image_mset snd M') D' \<and> 1 \<le> D'"
      by (elim exE)
    from r c1 have "pcost M' \<le> pcost M" by simp
    with r w1 show ?thesis by (intro exI [of _ M'] exI [of _ D']) simp
  qed
qed

lemma count_two_in: "2 \<le> count A x \<Longrightarrow> x \<in># A"
  by (rule count_inI) simp

lemma count_two_in_rest: "2 \<le> count (add_mset x A) x \<Longrightarrow> x \<in># A"
  by (rule count_inI) simp

lemma swap1:
  assumes M: "M = add_mset (a, da) M1" and amin: "\<forall>p\<in>#M1. a \<le> fst p"
    and Dmax: "\<forall>p\<in>#M. snd p \<le> D" and Dex: "\<exists>p\<in>#M. snd p = D"
  shows "\<exists>M1'. image_mset fst M1' = image_mset fst M1
     \<and> image_mset snd (add_mset (a, D) M1') = image_mset snd M
     \<and> pcost (add_mset (a, D) M1') \<le> pcost M"
proof (cases "da = D")
  case True
  then show ?thesis unfolding M by (intro exI [of _ M1]) simp
next
  case False
  with Dex obtain p where p: "p \<in># M1" "snd p = D" unfolding M by auto
  obtain x where px: "p = (x, D)" using p(2) by (cases p) auto
  from p(1) obtain M2 where M1: "M1 = add_mset (x, D) M2"
    unfolding px by (auto dest: multi_member_split)
  from amin have ax: "a \<le> x" unfolding M1 by simp
  from Dmax have dD: "da \<le> D" unfolding M by simp
  have "a * D + x * da \<le> a * da + x * D" using ax dD by (rule swap_cost)
  then show ?thesis unfolding M M1 by (intro exI [of _ "add_mset (x, da) M2"]) simp
qed

lemma min_weight:
  assumes "a = Min_mset (image_mset fst M)" and "M \<noteq> {#}"
  shows "\<exists>da M1. M = add_mset (a, da) M1 \<and> (\<forall>p\<in>#M1. a \<le> fst p)"
proof -
  have "a \<in> set_mset (image_mset fst M)"
    unfolding assms(1) using assms(2) by (intro Min_in) auto
  then obtain p where p: "p \<in># M" "fst p = a" by auto
  obtain da where pa: "p = (a, da)" using p(2) by (cases p) auto
  from p(1) obtain M1 where M: "M = add_mset (a, da) M1"
    unfolding pa by (auto dest: multi_member_split)
  have "\<forall>q\<in>#M. a \<le> fst q" unfolding assms(1) by auto
  then have "\<forall>q\<in>#M1. a \<le> fst q" unfolding M by simp
  with M show ?thesis by blast
qed

text \<open>
  One merge of the two least weights, seen on any assignment of depths that satisfies
  Kraft's inequality: the merged weights have such an assignment too, cheaper by the sum
  of the two.
\<close>

lemma step_bound:
  assumes sz: "2 \<le> size M" and kr: "kraft N M"
    and a: "a = Min_mset (image_mset fst M)"
    and b: "b = Min_mset (image_mset fst M - {#a#})"
  shows "\<exists>M'. image_mset fst M' = add_mset (a + b) (image_mset fst M - {#a#} - {#b#})
     \<and> kraft N M' \<and> pcost M' + (a + b) \<le> pcost M"
proof -
  from normalize [OF sz kr] obtain Mn D where n:
    "image_mset fst Mn = image_mset fst M \<and> kraft N Mn \<and> pcost Mn \<le> pcost M
      \<and> (\<forall>p\<in>#Mn. snd p \<le> D) \<and> 2 \<le> count (image_mset snd Mn) D \<and> 1 \<le> D"
    by (elim exE)
  then have wn: "image_mset fst Mn = image_mset fst M" and kn: "kraft N Mn"
    and cn: "pcost Mn \<le> pcost M" and Dn: "\<forall>p\<in>#Mn. snd p \<le> D"
    and two: "2 \<le> count (image_mset snd Mn) D" and D1: "1 \<le> D"
    by simp_all
  have szn: "size Mn = size M" using arg_cong [OF wn, of size] by simp
  with sz have nen: "Mn \<noteq> {#}" by auto
  from a have "a = Min_mset (image_mset fst Mn)" by (simp add: wn)
  from min_weight [OF this nen] obtain da M1 where
    Mn: "Mn = add_mset (a, da) M1" and amin: "\<forall>p\<in>#M1. a \<le> fst p" by blast
  have "add_mset a (image_mset fst M1) = image_mset fst M" using wn unfolding Mn by simp
  from arg_cong [OF this, of "\<lambda>X. X - {#a#}"]
  have w1: "image_mset fst M1 = image_mset fst M - {#a#}" by simp
  from two have "D \<in># image_mset snd Mn" by (rule count_two_in)
  then have Dex: "\<exists>p\<in>#Mn. snd p = D" by auto
  from swap1 [OF Mn amin Dn Dex] obtain M1' where s1:
    "image_mset fst M1' = image_mset fst M1 \<and>
     image_mset snd (add_mset (a, D) M1') = image_mset snd Mn \<and>
     pcost (add_mset (a, D) M1') \<le> pcost Mn"
    by (elim exE)
  then have w1': "image_mset fst M1' = image_mset fst M1"
    and d1': "image_mset snd (add_mset (a, D) M1') = image_mset snd Mn"
    and c1': "pcost (add_mset (a, D) M1') \<le> pcost Mn"
    by simp_all
  have "size M1' = size M1" using arg_cong [OF w1', of size] by simp
  with szn sz have ne1: "M1' \<noteq> {#}" unfolding Mn by auto
  from b have "b = Min_mset (image_mset fst M1')" by (simp add: w1' w1)
  from min_weight [OF this ne1] obtain db M2 where
    M1': "M1' = add_mset (b, db) M2" and bmin: "\<forall>p\<in>#M2. b \<le> fst p" by blast
  have "add_mset b (image_mset fst M2) = image_mset fst M - {#a#}"
    using w1' w1 unfolding M1' by simp
  from arg_cong [OF this, of "\<lambda>X. X - {#b#}"]
  have w2: "image_mset fst M2 = image_mset fst M - {#a#} - {#b#}" by simp
  have dep1: "add_mset D (image_mset snd M1') = image_mset snd Mn" using d1' by simp
  have D1': "\<forall>p\<in>#M1'. snd p \<le> D"
  proof
    fix p assume "p \<in># M1'"
    then have "snd p \<in># add_mset D (image_mset snd M1')" by simp
    then have "snd p \<in># image_mset snd Mn" unfolding dep1 .
    with Dn show "snd p \<le> D" by auto
  qed
  from two have "2 \<le> count (add_mset D (image_mset snd M1')) D" unfolding dep1 .
  then have "D \<in># image_mset snd M1'" by (rule count_two_in_rest)
  then have Dex1: "\<exists>p\<in>#M1'. snd p = D" by auto
  from swap1 [OF M1' bmin D1' Dex1] obtain M2' where s2:
    "image_mset fst M2' = image_mset fst M2 \<and>
     image_mset snd (add_mset (b, D) M2') = image_mset snd M1' \<and>
     pcost (add_mset (b, D) M2') \<le> pcost M1'"
    by (elim exE)
  then have w2': "image_mset fst M2' = image_mset fst M2"
    and d2': "image_mset snd (add_mset (b, D) M2') = image_mset snd M1'"
    and c2': "pcost (add_mset (b, D) M2') \<le> pcost M1'"
    by simp_all
  define Ms where "Ms = add_mset (a, D) (add_mset (b, D) M2')"
  define M' where "M' = add_mset (a + b, D - 1) M2'"
  have deps: "image_mset snd Ms = image_mset snd Mn"
    using d1' d2' by (simp add: Ms_def)
  have ks: "kraft N Ms" using kn kraft_depths [OF deps] by simp
  have cs: "pcost Ms \<le> pcost M" using c1' c2' cn by (simp add: Ms_def)
  from ks have DN: "D \<le> N" by (simp add: kraft_def Ms_def)
  have pw: "(2::nat) ^ (N - (D - 1)) = 2 ^ (N - D) + 2 ^ (N - D)"
  proof -
    have "N - (D - 1) = Suc (N - D)" using D1 DN by simp
    then show ?thesis by simp
  qed
  have "ksum N M' = ksum N Ms" by (simp only: M'_def Ms_def ksum_add snd_conv pw add.assoc)
  moreover have "\<forall>p\<in>#M'. snd p \<le> N" using ks DN by (auto simp: kraft_def M'_def Ms_def)
  ultimately have k': "kraft N M'" using ks by (simp add: kraft_def)
  have "(a + b) * (D - 1) + (a + b) = (a + b) * D"
    using D1 by (cases D) simp_all
  then have "pcost M' + (a + b) = pcost Ms"
    by (simp add: M'_def Ms_def algebra_simps)
  with cs have c': "pcost M' + (a + b) \<le> pcost M" by simp
  have "image_mset fst M' = add_mset (a + b) (image_mset fst M - {#a#} - {#b#})"
    by (simp add: M'_def w2' w2)
  with k' c' show ?thesis by (intro exI [of _ M']) simp
qed

section \<open>The cost of the tree that the merge loop builds\<close>

lemma sint_small: "unat (f :: 32 word) < 2 ^ 31 \<Longrightarrow> sint f = int (unat f)"
proof -
  assume a: "unat f < 2 ^ 31"
  have "int (unat f) < int (2 ^ 31)" using a by (simp only: of_nat_less_iff)
  then have hi: "uint f < 2 ^ 31" by (simp only: uint_nat of_nat_power of_nat_numeral)
  have "- (2 ^ 31) \<le> (0::int)" by simp
  also have "0 \<le> uint f" by simp
  finally have lo: "- (2 ^ 31) \<le> uint f" .
  have n: "LENGTH(32) - Suc 0 = 31" by simp
  have "sint f = signed_take_bit 31 (uint f)" using sint_uint [of f] unfolding n .
  also have "\<dots> = uint f" using lo hi by (rule signed_take_bit_int_eq_self)
  finally show ?thesis by (simp only: uint_nat)
qed

lemma unat_add_small:
  "unat (f :: 32 word) + unat g < 2 ^ 31 \<Longrightarrow> unat (f + g) = unat f + unat g"
proof -
  assume "unat f + unat g < 2 ^ 31"
  then have "unat f + unat g < 2 ^ LENGTH(32)" by simp
  then show ?thesis by (simp only: unat_add_lem)
qed

lemma unat_count: "k < 2 ^ 31 \<Longrightarrow> unat (of_nat k :: 32 word) = k"
  by (simp add: unat_of_nat)

lemma paths_leaves: "paths n = map (\<lambda>lf. (sym lf, path lf)) (leaves n)"
  by (induction n rule: leaves.induct) (auto simp: deeper_def)

lemma weight_simps [simp]:
  "weight None = 0"
  "weight (Some (Node c f l r)) = (if l = None \<and> r = None then unat f else weight l + weight r)"
  by (simp_all add: weight_def comp_def deeper_def)

lemma cost_simps [simp]:
  "cost None = 0"
  "cost (Some (Node c f l r)) =
     (if l = None \<and> r = None then 0 else cost l + cost r + weight l + weight r)"
  by (simp_all add: cost_def weight_def comp_def deeper_def sum_list_addf)

lemma table_simps [simp]:
  "table None = []"
  "table (Some (Node c f l r)) = (if l = None \<and> r = None then [(c, f)] else table l @ table r)"
  by (simp_all add: table_def comp_def deeper_def)

lemma honest_frequency: "honest (Some n) \<Longrightarrow> unat (frequency n) = weight (Some n)"
  by (cases n) auto

lemma merge_loop_unfold:
  "merge_loop tie pq = (if 1 < length pq then merge_loop tie (merge_step tie pq) else pq)"
  by (subst merge_loop.simps) (simp add: merge_step_def Let_def)

lemma length_merge_step:
  assumes "1 < length pq"
  shows "Suc (length (merge_step tie pq)) = length pq"
proof -
  from assms have ne: "pq \<noteq> []" by auto
  then have l1: "Suc (length (pq_pop tie pq)) = length pq" by (rule length_pq_pop)
  with assms have "pq_pop tie pq \<noteq> []" by auto
  then have "Suc (length (pq_pop tie (pq_pop tie pq))) = length (pq_pop tie pq)"
    by (rule length_pq_pop)
  with l1 show ?thesis by (simp add: merge_step_def Let_def pq_push_def)
qed

lemma merge_loop_rule:
  assumes "P pq" and "\<And>q. P q \<Longrightarrow> 1 < length q \<Longrightarrow> P (merge_step tie q)"
  shows "P (merge_loop tie pq)"
  using assms(1)
proof (induction "length pq" arbitrary: pq rule: less_induct)
  case less
  show ?case
  proof (cases "1 < length pq")
    case False
    with less.prems show ?thesis by (simp add: merge_loop_unfold)
  next
    case True
    then have "length (merge_step tie pq) < length pq"
      using length_merge_step [of pq tie] by simp
    moreover have "P (merge_step tie pq)" using less.prems True by (rule assms(2))
    ultimately have "P (merge_loop tie (merge_step tie pq))" by (rule less.hyps)
    with True show ?thesis by (simp add: merge_loop_unfold [of tie pq])
  qed
qed

lemma mset_merge_step:
  fixes tie :: "node list \<Rightarrow> nat" and pq :: "node list"
  assumes "1 < length pq"
  defines "l \<equiv> pq_top tie pq" and "r \<equiv> pq_top tie (pq_pop tie pq)"
    and "pq2 \<equiv> pq_pop tie (pq_pop tie pq)"
  shows "mset pq = add_mset l (add_mset r (mset pq2))"
    and "mset (merge_step tie pq)
         = add_mset (Node (CHR 0x00) (frequency l + frequency r) (Some l) (Some r)) (mset pq2)"
proof -
  from assms(1) have ne: "pq \<noteq> []" by auto
  then have m1: "mset pq = add_mset l (mset (pq_pop tie pq))"
    unfolding l_def by (rule mset_pq_pop)
  from ne have "Suc (length (pq_pop tie pq)) = length pq" by (rule length_pq_pop)
  with assms(1) have "pq_pop tie pq \<noteq> []" by auto
  then have "mset (pq_pop tie pq) = add_mset r (mset pq2)"
    unfolding r_def pq2_def by (rule mset_pq_pop)
  with m1 show "mset pq = add_mset l (add_mset r (mset pq2))" by simp
  show "mset (merge_step tie pq)
         = add_mset (Node (CHR 0x00) (frequency l + frequency r) (Some l) (Some r)) (mset pq2)"
    by (simp add: merge_step_def Let_def pq_push_def l_def r_def pq2_def)
qed

lemma pq_top_least:
  assumes "pq \<noteq> []" and "x \<in> set pq"
  shows "sint (frequency (pq_top tie pq)) \<le> sint (frequency x)"
proof -
  from assms(1) have "pq_top tie pq \<in> set (pq_candidates pq)" by (rule pq_top_candidate)
  then have "list_all (\<lambda>b. \<not> Compare (pq_top tie pq) b) pq"
    by (simp add: pq_candidates_def)
  with assms(2) have "\<not> Compare (pq_top tie pq) x" by (simp add: list_all_iff)
  then show ?thesis by (simp add: Compare_def)
qed

lemma weight_le_total:
  "n \<in> set pq \<Longrightarrow> weight (Some n) \<le> sum_mset (qweights pq)"
proof -
  assume "n \<in> set pq"
  then obtain A where "mset pq = add_mset n A"
    using multi_member_split [of n "mset pq"] by auto
  then show ?thesis by (simp add: qweights_def)
qed

lemma pq_top_min_weight:
  assumes "sound_queue pq" and "pq \<noteq> []"
  shows "weight (Some (pq_top tie pq)) = Min_mset (qweights pq)"
proof -
  have small: "unat (frequency n) < 2 ^ 31 \<and> unat (frequency n) = weight (Some n)"
    if "n \<in> set pq" for n
  proof -
    from that assms(1) have "honest (Some n)" by (simp add: sound_queue_def)
    then have "unat (frequency n) = weight (Some n)" by (rule honest_frequency)
    moreover have "weight (Some n) \<le> sum_mset (qweights pq)" using that by (rule weight_le_total)
    ultimately show ?thesis using assms(1) by (simp add: sound_queue_def)
  qed
  have top: "pq_top tie pq \<in> set pq" using assms(2) by (rule pq_top_in)
  have "weight (Some (pq_top tie pq)) \<le> weight (Some x)" if "x \<in> set pq" for x
  proof -
    have "sint (frequency (pq_top tie pq)) \<le> sint (frequency x)"
      using assms(2) that by (rule pq_top_least)
    then have "int (unat (frequency (pq_top tie pq))) \<le> int (unat (frequency x))"
      using small [OF top] small [OF that] by (simp add: sint_small)
    then show ?thesis using small [OF top] small [OF that] by simp
  qed
  then have "\<forall>w \<in> set_mset (qweights pq). weight (Some (pq_top tie pq)) \<le> w"
    by (auto simp: qweights_def)
  moreover have "weight (Some (pq_top tie pq)) \<in> set_mset (qweights pq)"
    using top by (auto simp: qweights_def)
  ultimately show ?thesis by (intro Min_eqI [symmetric]) auto
qed

lemma sound_step:
  fixes tie :: "node list \<Rightarrow> nat" and pq :: "node list"
  assumes snd: "sound_queue pq" and len: "1 < length pq"
  defines "l \<equiv> pq_top tie pq" and "r \<equiv> pq_top tie (pq_pop tie pq)"
  shows "sound_queue (merge_step tie pq)"
    and "weight (Some l) = Min_mset (qweights pq)"
    and "weight (Some r) = Min_mset (qweights pq - {#weight (Some l)#})"
    and "qweights (merge_step tie pq)
         = add_mset (weight (Some l) + weight (Some r))
             (qweights pq - {#weight (Some l)#} - {#weight (Some r)#})"
    and "qcost (merge_step tie pq) = qcost pq + (weight (Some l) + weight (Some r))"
    and "qtable (merge_step tie pq) = qtable pq"
    and "sum_mset (qweights (merge_step tie pq)) = sum_mset (qweights pq)"
proof -
  define pq1 where "pq1 = pq_pop tie pq"
  define pq2 where "pq2 = pq_pop tie pq1"
  define parent where "parent = Node (CHR 0x00) (frequency l + frequency r) (Some l) (Some r)"
  from len have ne: "pq \<noteq> []" by auto
  have m: "mset pq = add_mset l (add_mset r (mset pq2))"
    and ms: "mset (merge_step tie pq) = add_mset parent (mset pq2)"
    using mset_merge_step [OF len, of tie] by (simp_all add: l_def r_def pq2_def pq1_def parent_def)
  have m1: "mset pq = add_mset l (mset pq1)"
    using ne unfolding l_def pq1_def by (rule mset_pq_pop)
  with m have m1': "mset pq1 = add_mset r (mset pq2)" by simp
  have sets: "set pq = insert l (insert r (set pq2))"
  proof -
    have "set_mset (mset pq) = set_mset (add_mset l (add_mset r (mset pq2)))" using m by simp
    then show ?thesis by simp
  qed
  from snd have all: "\<forall>n \<in> set pq. full (Some n) \<and> honest (Some n)"
    and tot: "sum_mset (qweights pq) < 2 ^ 31" by (simp_all add: sound_queue_def)
  from all sets have fl: "full (Some l)" "full (Some r)" and hl: "honest (Some l)" "honest (Some r)"
    and rest: "\<forall>n \<in> set pq2. full (Some n) \<and> honest (Some n)" by auto
  have qw: "qweights pq = add_mset (weight (Some l)) (add_mset (weight (Some r)) (qweights pq2))"
    by (simp add: qweights_def m)
  have qw1: "qweights pq1 = qweights pq - {#weight (Some l)#}"
    by (simp add: qweights_def m1)
  have qw2: "qweights pq2 = qweights pq - {#weight (Some l)#} - {#weight (Some r)#}"
    by (simp add: qw)
  from tot have sm: "weight (Some l) + weight (Some r) < 2 ^ 31" unfolding qw by simp
  have ul: "unat (frequency l) = weight (Some l)" using hl(1) by (rule honest_frequency)
  have ur: "unat (frequency r) = weight (Some r)" using hl(2) by (rule honest_frequency)
  have up: "unat (frequency l + frequency r) = weight (Some l) + weight (Some r)"
    using sm unat_add_small [of "frequency l" "frequency r"] by (simp add: ul ur)
  have wp: "weight (Some parent) = weight (Some l) + weight (Some r)"
    by (simp add: parent_def)
  have hp: "honest (Some parent)" using hl up by (simp add: parent_def)
  have fp: "full (Some parent)" using fl by (simp add: parent_def)
  have qws: "qweights (merge_step tie pq)
      = add_mset (weight (Some l) + weight (Some r)) (qweights pq2)"
    by (simp add: qweights_def ms wp)
  have sums: "sum_mset (qweights (merge_step tie pq)) = sum_mset (qweights pq)"
    unfolding qws qw by simp
  then show "sum_mset (qweights (merge_step tie pq)) = sum_mset (qweights pq)" .
  note sums
  moreover have "\<forall>n \<in> set (merge_step tie pq). full (Some n) \<and> honest (Some n)"
  proof -
    have "set_mset (mset (merge_step tie pq)) = set_mset (add_mset parent (mset pq2))"
      using ms by simp
    then have "set (merge_step tie pq) = insert parent (set pq2)" by simp
    with rest hp fp show ?thesis by simp
  qed
  ultimately show "sound_queue (merge_step tie pq)" using tot by (simp add: sound_queue_def)
  show "weight (Some l) = Min_mset (qweights pq)"
    unfolding l_def using snd ne by (rule pq_top_min_weight)
  have "Suc (length pq1) = length pq" using ne unfolding pq1_def by (rule length_pq_pop)
  with len have ne1: "pq1 \<noteq> []" by auto
  have "sound_queue pq1"
  proof -
    have "set_mset (mset pq) = set_mset (add_mset l (mset pq1))" using m1 by simp
    then have "set pq1 \<subseteq> set pq" by auto
    with all have "\<forall>n \<in> set pq1. full (Some n) \<and> honest (Some n)" by auto
    moreover have "sum_mset (qweights pq1) \<le> sum_mset (qweights pq)"
      by (simp add: qweights_def m1)
    ultimately show ?thesis using tot by (simp add: sound_queue_def)
  qed
  then have "weight (Some (pq_top tie pq1)) = Min_mset (qweights pq1)"
    using ne1 by (rule pq_top_min_weight)
  then show "weight (Some r) = Min_mset (qweights pq - {#weight (Some l)#})"
    by (simp add: r_def pq1_def qw1 [unfolded pq1_def])
  show "qweights (merge_step tie pq)
         = add_mset (weight (Some l) + weight (Some r))
             (qweights pq - {#weight (Some l)#} - {#weight (Some r)#})"
    unfolding qws qw2 ..
  show "qcost (merge_step tie pq) = qcost pq + (weight (Some l) + weight (Some r))"
    by (simp add: qcost_def ms m parent_def)
  show "qtable (merge_step tie pq) = qtable pq"
    by (simp add: qtable_def ms m parent_def)
qed

lemma bounded_step:
  assumes "sound_queue pq" and "1 < length pq" and "bounded_queue N B pq"
  shows "bounded_queue N B (merge_step tie pq)"
proof -
  define a where "a = weight (Some (pq_top tie pq))"
  define b where "b = weight (Some (pq_top tie (pq_pop tie pq)))"
  note st = sound_step [OF assms(1,2), of tie, folded a_def b_def]
  from assms(3) obtain M where M: "kraft N M" "image_mset fst M = qweights pq"
    "qcost pq + pcost M \<le> B" by (auto simp: bounded_queue_def)
  have "size M = size (qweights pq)" using arg_cong [OF M(2), of size] by simp
  then have sz: "2 \<le> size M" using assms(2) by (simp add: qweights_def)
  have a: "a = Min_mset (image_mset fst M)" using st(2) by (simp add: M(2))
  have b: "b = Min_mset (image_mset fst M - {#a#})" using st(3) by (simp add: M(2))
  from step_bound [OF sz M(1) a b] obtain M' where M':
    "image_mset fst M' = add_mset (a + b) (image_mset fst M - {#a#} - {#b#}) \<and>
     kraft N M' \<and> pcost M' + (a + b) \<le> pcost M"
    by (elim exE)
  then have "image_mset fst M' = qweights (merge_step tie pq)"
    by (simp add: st(4) M(2))
  moreover have "qcost (merge_step tie pq) + pcost M' \<le> B"
    using M' M(3) by (simp add: st(5))
  ultimately show ?thesis using M' unfolding bounded_queue_def by (intro exI [of _ M']) simp
qed

lemma merge_loop_cost:
  assumes "sound_queue pq" and "pq \<noteq> []" and "kraft N M" and "image_mset fst M = qweights pq"
  shows "\<exists>r. merge_loop tie pq = [r] \<and> cost (Some r) \<le> qcost pq + pcost M
     \<and> mset (table (Some r)) = qtable pq \<and> sum_mset (qweights pq) = weight (Some r)"
proof -
  define P where "P q = (sound_queue q \<and> bounded_queue N (qcost pq + pcost M) q
      \<and> qtable q = qtable pq \<and> sum_mset (qweights q) = sum_mset (qweights pq))" for q
  have "P pq" using assms(1,3,4) unfolding P_def bounded_queue_def by auto
  moreover have "P (merge_step tie q)" if "P q" "1 < length q" for q
  proof -
    from that(1) have s: "sound_queue q" by (simp add: P_def)
    note st = sound_step [OF s that(2), of tie]
    from that(1) st(1) st(6) st(7) bounded_step [OF s that(2), of N "qcost pq + pcost M" tie]
    show ?thesis by (simp add: P_def)
  qed
  ultimately have fin: "P (merge_loop tie pq)" by (rule merge_loop_rule)
  from assms(1) have "\<forall>n \<in> set pq. full (Some n)" by (simp add: sound_queue_def)
  then have "length (merge_loop tie pq) = min 1 (length pq)"
    using merge_loop_inv [of pq tie] by simp
  with assms(2) have "length (merge_loop tie pq) = 1" by (cases pq) simp_all
  then obtain r where r: "merge_loop tie pq = [r]" by (cases "merge_loop tie pq") auto
  from fin obtain M' where "qcost [r] + pcost M' \<le> qcost pq + pcost M"
    unfolding P_def r bounded_queue_def by auto
  then have "cost (Some r) \<le> qcost pq + pcost M" by (simp add: qcost_def)
  moreover from fin have "mset (table (Some r)) = qtable pq"
    unfolding P_def r by (simp add: qtable_def)
  moreover from fin have "sum_mset (qweights pq) = weight (Some r)"
    unfolding P_def r by (simp add: qweights_def)
  ultimately show ?thesis using r by simp
qed

subsection \<open>The frequency table of a new object\<close>

lemma count_of_entry:
  "distinct (map fst fs) \<Longrightarrow> (c, f) \<in> set fs \<Longrightarrow> count_of fs c = f"
  by (simp add: count_of_def)

lemma new_table:
  fixes t :: string
  defines "fs \<equiv> foldl increment [] t"
  shows "distinct (map fst fs)" and "fst ` set fs = set t"
    and "(c, f) \<in> set fs \<Longrightarrow> f = of_nat (count_list t c)"
proof -
  show d: "distinct (map fst fs)" unfolding fs_def by (rule distinct_keys_count) simp
  show "fst ` set fs = set t" unfolding fs_def by (simp add: set_keys_count)
  assume "(c, f) \<in> set fs"
  with d have "count_of fs c = f" by (rule count_of_entry)
  moreover have "count_of fs c = of_nat (count_list t c)"
  proof -
    have "count_of [] c = 0" by (simp add: count_of_def)
    then show ?thesis unfolding fs_def count_of_count by simp
  qed
  ultimately show "f = of_nat (count_list t c)" by simp
qed

lemma new_table_unat:
  assumes "length text < 2 ^ 31" and "(c, f) \<in> set (foldl increment [] text)"
  shows "unat f = count_list text c"
proof -
  from assms(2) have "f = of_nat (count_list text c)" by (rule new_table(3))
  moreover have "count_list text c \<le> length text" by (rule count_le_length)
  ultimately show ?thesis using assms(1) by (simp add: unat_count)
qed

lemma new_table_total:
  assumes "length text < 2 ^ 31"
  shows "(\<Sum>x\<leftarrow>foldl increment [] text. unat (snd x)) = length text"
proof -
  define fs where "fs = foldl increment [] text"
  have "(\<Sum>x\<leftarrow>fs. unat (snd x)) = (\<Sum>x\<leftarrow>fs. count_list text (fst x))"
  proof (rule arg_cong [where f = sum_list], rule map_cong [OF refl])
    fix x assume "x \<in> set fs"
    then have "(fst x, snd x) \<in> set (foldl increment [] text)" by (simp add: fs_def)
    with assms show "unat (snd x) = count_list text (fst x)" by (rule new_table_unat)
  qed
  also have "\<dots> = sum_list (map (count_list text) (map fst fs))" by (simp add: comp_def)
  also have "\<dots> = sum (count_list text) (set (map fst fs))"
    unfolding fs_def by (intro sum_list_distinct_conv_sum_set new_table(1))
  also have "\<dots> = sum (count_list text) (set text)"
    unfolding fs_def by (simp add: new_table(2))
  also have "\<dots> = length text" by (intro sum_count_set) auto
  finally show ?thesis by (simp add: fs_def)
qed

subsection \<open>The queue of leaves\<close>

lemma leaves_of_queue:
  "qweights (leaves_of fs) = image_mset (\<lambda>x. unat (snd x)) (mset fs)"
  "qcost (leaves_of fs) = 0"
  "qtable (leaves_of fs) = mset fs"
  "\<forall>n \<in> set (leaves_of fs). full (Some n) \<and> honest (Some n)"
  by (induction fs) (auto simp: leaves_of_eq qweights_def qcost_def qtable_def)

lemma flat_kraft:
  assumes "distinct (map fst fs)"
  shows "kraft 8 (flat fs)"
proof -
  have "ksum 8 (flat fs) = length fs" by (induction fs) (simp_all add: flat_def)
  also have "\<dots> = card (set (map fst fs))" using distinct_card [OF assms] by simp
  also have "\<dots> \<le> card (UNIV :: char set)" by (intro card_mono) auto
  finally have "ksum 8 (flat fs) \<le> 2 ^ 8" by (simp add: card_UNIV_char)
  then show ?thesis by (auto simp: kraft_def flat_def)
qed

lemma flat_cost: "pcost (flat fs) = 8 * (\<Sum>x\<leftarrow>fs. unat (snd x))"
  by (induction fs) (simp_all add: flat_def)

lemma flat_weights: "image_mset fst (flat fs) = qweights (leaves_of fs)"
  by (simp add: flat_def leaves_of_queue(1) image_mset.compositionality comp_def)

lemma new_tree_cost:
  assumes "text \<noteq> []" and "length text < 2 ^ 31"
  defines "fs \<equiv> foldl increment [] text"
  shows "\<exists>r. merge_loop tie (leaves_of fs) = [r] \<and> cost (Some r) \<le> 8 * length text
     \<and> mset (table (Some r)) = mset fs"
proof -
  have tot: "(\<Sum>x\<leftarrow>fs. unat (snd x)) = length text"
    unfolding fs_def using assms(2) by (rule new_table_total)
  have "sum_mset (qweights (leaves_of fs)) = (\<Sum>x\<leftarrow>fs. unat (snd x))"
    by (simp add: leaves_of_queue(1) sum_mset_sum_list [symmetric] del: sum_mset_sum_list)
  with tot assms(2) have s: "sound_queue (leaves_of fs)"
    using leaves_of_queue(4) [of fs] by (simp add: sound_queue_def)
  have "fs \<noteq> []" using assms(1) by (simp add: fs_def count_nonempty)
  then have ne: "leaves_of fs \<noteq> []" by (simp add: leaves_of_eq)
  have k: "kraft 8 (flat fs)" unfolding fs_def by (intro flat_kraft new_table(1))
  from merge_loop_cost [OF s ne k flat_weights, of tie] obtain r where
    "merge_loop tie (leaves_of fs) = [r] \<and>
     cost (Some r) \<le> qcost (leaves_of fs) + pcost (flat fs) \<and>
     mset (table (Some r)) = qtable (leaves_of fs) \<and>
     sum_mset (qweights (leaves_of fs)) = weight (Some r)"
    by (elim exE)
  then show ?thesis by (intro exI [of _ r]) (simp add: leaves_of_queue flat_cost tot)
qed

subsection \<open>The length of the encoding\<close>

lemma symbols_leaves: "symbols n = map sym (leaves n)"
  by (simp add: symbols_def paths_leaves comp_def)

lemma table_leaves: "lf \<in> set (leaves n) \<Longrightarrow> (sym lf, freq lf) \<in> set (table n)"
  by (auto simp: table_def)

lemma path_of_leaf:
  assumes "distinct (symbols n)" and "lf \<in> set (leaves n)"
  shows "path_of n (sym lf) = path lf"
proof -
  from assms(2) have "(sym lf, path lf) \<in> set (paths n)" by (auto simp: paths_leaves)
  moreover from assms(1) have "distinct (map fst (paths n))" by (simp add: symbols_def)
  ultimately have "map_of (paths n) (sym lf) = Some (path lf)" by (intro map_of_is_SomeI)
  then show ?thesis by (simp add: path_of_def)
qed

lemma encode_length_cost:
  assumes "distinct (symbols n)" and "set text = set (symbols n)"
    and "\<forall>lf \<in> set (leaves n). unat (freq lf) = count_list text (sym lf)"
  shows "length (concat (map (path_of n) text)) = cost n"
proof -
  define g where "g c = count_list text c * length (path_of n c)" for c
  have "length (concat (map (path_of n) text)) = sum_list (map (\<lambda>c. length (path_of n c)) text)"
    by (simp add: length_concat comp_def)
  also have "\<dots> = sum g (set text)"
    unfolding g_def by (rule sum_list_map_eq_sum_count)
  also have "\<dots> = sum g (set (symbols n))" by (simp add: assms(2))
  also have "\<dots> = sum_list (map g (symbols n))"
    using assms(1) by (rule sum_list_distinct_conv_sum_set [symmetric])
  also have "\<dots> = sum_list (map (\<lambda>lf. g (sym lf)) (leaves n))"
    by (simp add: symbols_leaves comp_def)
  also have "\<dots> = sum_list (map (\<lambda>lf. unat (freq lf) * length (path lf)) (leaves n))"
  proof (rule arg_cong [where f = sum_list], rule map_cong [OF refl])
    fix lf assume lf: "lf \<in> set (leaves n)"
    with assms(1) have "path_of n (sym lf) = path lf" by (rule path_of_leaf)
    with assms(3) lf show "g (sym lf) = unat (freq lf) * length (path lf)"
      by (simp add: g_def)
  qed
  finally show ?thesis by (simp add: cost_def)
qed

lemma new_codec:
  assumes "text \<noteq> []" and "length text < 2 ^ 31"
  obtains r where
    "buildTree tie new_HuffmanCoding text =
       Inr \<lparr>root = Some r, codes = generateCodes (Some r) [] Map.empty,
            frequencies = foldl increment [] text\<rparr>"
    "full (Some r)" "distinct (symbols (Some r))" "set (symbols (Some r)) = set text"
    "cost (Some r) \<le> 8 * length text"
    "length (concat (map (path_of (Some r)) text)) = cost (Some r)"
    "\<forall>lf \<in> set (leaves (Some r)). unat (freq lf) = count_list text (sym lf)"
proof -
  define fs where "fs = foldl increment [] text"
  from new_tree_cost [OF assms, of tie] obtain r where r:
    "merge_loop tie (leaves_of fs) = [r] \<and> cost (Some r) \<le> 8 * length text
     \<and> mset (table (Some r)) = mset fs"
    unfolding fs_def by (elim exE)
  then have b: "buildTree tie new_HuffmanCoding text =
       Inr \<lparr>root = Some r, codes = generateCodes (Some r) [] Map.empty, frequencies = fs\<rparr>"
    by (simp add: buildTree_def new_HuffmanCoding_def Let_def fs_def [symmetric] pq_top_single
        del: generateCodes.simps)
  have d: "distinct (map fst (frequencies new_HuffmanCoding))"
    by (simp add: new_HuffmanCoding_def)
  from assms(1) have ne: "frequencies new_HuffmanCoding \<noteq> [] \<or> text \<noteq> []" by simp
  from d ne obtain r' where r':
    "buildTree tie new_HuffmanCoding text =
       Inr \<lparr>root = Some r', codes = generateCodes (Some r') [] (codes new_HuffmanCoding),
            frequencies = foldl increment (frequencies new_HuffmanCoding) text\<rparr>"
    "full (Some r')" "distinct (symbols (Some r'))"
    "set (symbols (Some r')) = fst ` set (frequencies new_HuffmanCoding) \<union> set text"
    "length (symbols (Some r')) = card (fst ` set (frequencies new_HuffmanCoding) \<union> set text)"
    by (rule built_codec)
  from b r'(1) have same: "r' = r" by simp
  have st: "set (symbols (Some r)) = set text"
    using r'(4) unfolding same by (simp add: new_HuffmanCoding_def)
  have fr: "\<forall>lf \<in> set (leaves (Some r)). unat (freq lf) = count_list text (sym lf)"
  proof
    fix lf assume "lf \<in> set (leaves (Some r))"
    then have "(sym lf, freq lf) \<in> set (table (Some r))" by (rule table_leaves)
    moreover have "set (table (Some r)) = set fs" using r by (intro mset_eq_setD) simp
    ultimately have "(sym lf, freq lf) \<in> set (foldl increment [] text)" by (simp add: fs_def)
    with assms(2) show "unat (freq lf) = count_list text (sym lf)" by (rule new_table_unat)
  qed
  have "length (concat (map (path_of (Some r)) text)) = cost (Some r)"
    using r'(3) [unfolded same] st [symmetric] fr by (rule encode_length_cost)
  with b r'(2,3) st r fr show ?thesis unfolding same fs_def by (intro that [of r]) simp_all
qed

lemma encode_single_leaf:
  assumes "isLeaf r" and "set text \<subseteq> set (symbols (Some r))"
    and "hc = \<lparr>root = Some r, codes = generateCodes (Some r) [] cs, frequencies = fs\<rparr>"
  shows "length (snd (encode hc text)) = length text"
proof -
  obtain c f where r: "r = Node c f None None" using assms(1) by (cases r) auto
  have "code_or_empty (codes hc) x = ''0''" if "x \<in> set text" for x
  proof -
    from that assms(2) have "x = c" by (auto simp: r)
    then show ?thesis by (simp add: assms(3) r code_or_empty_def)
  qed
  note zero = this
  have "length (concat (map (code_or_empty (codes hc)) text))
      = sum_list (map (\<lambda>x. length (code_or_empty (codes hc) x)) text)"
    by (simp add: length_concat comp_def)
  also have "\<dots> = sum_list (map (\<lambda>x. 1) text)"
    by (rule arg_cong [where f = sum_list], rule map_cong [OF refl]) (simp add: zero)
  also have "\<dots> = length text" by (induction "text") simp_all
  finally show ?thesis by (simp add: encode_def encode_loop_eq)
qed

lemma encoded_length_le:
  assumes "text \<noteq> []" and "length text < 2 ^ 31"
  shows "\<exists>hc. buildTree tie new_HuffmanCoding text = Inr hc
     \<and> length (snd (encode hc text)) \<le> 8 * length text"
proof -
  from assms obtain r where r:
    "buildTree tie new_HuffmanCoding text =
       Inr \<lparr>root = Some r, codes = generateCodes (Some r) [] Map.empty,
            frequencies = foldl increment [] text\<rparr>"
    "full (Some r)" "distinct (symbols (Some r))" "set (symbols (Some r)) = set text"
    "cost (Some r) \<le> 8 * length text"
    "length (concat (map (path_of (Some r)) text)) = cost (Some r)"
    "\<forall>lf \<in> set (leaves (Some r)). unat (freq lf) = count_list text (sym lf)"
    by (rule new_codec)
  define hc where "hc = \<lparr>root = Some r, codes = generateCodes (Some r) [] Map.empty,
            frequencies = foldl increment [] text\<rparr>"
  have sub: "set text \<subseteq> set (symbols (Some r))" using r(4) by simp
  have "length (snd (encode hc text)) \<le> 8 * length text"
  proof (cases "isLeaf r")
    case True
    then have "length (snd (encode hc text)) = length text"
      using sub hc_def by (rule encode_single_leaf)
    then show ?thesis by simp
  next
    case False
    from codec_inner(1) [OF r(2,3) False sub hc_def]
    have "snd (encode hc text) = concat (map (path_of (Some r)) text)" by simp
    with r(5,6) show ?thesis by simp
  qed
  with r(1) show ?thesis unfolding hc_def by (intro exI [of _ hc]) (simp add: hc_def)
qed

lemma flat_ksum: "ksum 8 (flat fs) = length fs"
  by (induction fs) (simp_all add: flat_def)

lemma new_tree_cost_strict:
  assumes "text \<noteq> []" and "length text < 2 ^ 31" and "card (set text) < 256"
  defines "fs \<equiv> foldl increment [] text"
  shows "\<exists>r. merge_loop tie (leaves_of fs) = [r] \<and> cost (Some r) < 8 * length text"
proof -
  have tot: "(\<Sum>x\<leftarrow>fs. unat (snd x)) = length text"
    unfolding fs_def using assms(2) by (rule new_table_total)
  have "sum_mset (qweights (leaves_of fs)) = (\<Sum>x\<leftarrow>fs. unat (snd x))"
    by (simp add: leaves_of_queue(1) sum_mset_sum_list [symmetric] del: sum_mset_sum_list)
  with tot assms(2) have s: "sound_queue (leaves_of fs)"
    using leaves_of_queue(4) [of fs] by (simp add: sound_queue_def)
  have fne: "fs \<noteq> []" using assms(1) by (simp add: fs_def count_nonempty)
  then have ne: "leaves_of fs \<noteq> []" by (simp add: leaves_of_eq)
  from fne obtain x rest where fs: "fs = x # rest" by (cases fs) auto
  define M where "M = add_mset (unat (snd x), 7 :: nat) (flat rest)"
  have d: "distinct (map fst fs)" unfolding fs_def by (rule new_table(1))
  have keys: "fst ` set fs = set text" unfolding fs_def by (rule new_table(2))
  have "length fs = card (set (map fst fs))" using distinct_card [OF d] by simp
  also have "\<dots> = card (set text)" using keys by simp
  finally have len: "length rest < 255" using assms(3) by (simp add: fs)
  have "ksum 8 M = 2 + length rest" by (simp add: M_def flat_ksum)
  with len have "ksum 8 M \<le> 2 ^ 8" by simp
  moreover have "\<forall>p\<in>#M. snd p \<le> 8" by (auto simp: M_def flat_def)
  ultimately have k: "kraft 8 M" by (simp add: kraft_def)
  have w: "image_mset fst M = qweights (leaves_of fs)"
    using flat_weights [of rest] by (simp add: M_def fs leaves_of_queue(1))
  have "(fst x, snd x) \<in> set (foldl increment [] text)" by (simp add: fs_def [symmetric] fs)
  with assms(2) have ux: "unat (snd x) = count_list text (fst x)" by (rule new_table_unat)
  have "fst x \<in> set text" using keys by (auto simp: fs)
  then have "count_list text (fst x) \<noteq> 0" by (simp add: count_list_0_iff)
  with ux have pos: "0 < unat (snd x)" by simp
  have "pcost M + unat (snd x) = 8 * (\<Sum>y\<leftarrow>fs. unat (snd y))"
    by (simp add: M_def flat_cost fs)
  with tot pos have pc: "pcost M < 8 * length text" by simp
  from merge_loop_cost [OF s ne k w, of tie] obtain r where
    "merge_loop tie (leaves_of fs) = [r] \<and>
     cost (Some r) \<le> qcost (leaves_of fs) + pcost M \<and>
     mset (table (Some r)) = qtable (leaves_of fs) \<and>
     sum_mset (qweights (leaves_of fs)) = weight (Some r)"
    by (elim exE)
  with pc show ?thesis by (intro exI [of _ r]) (simp add: leaves_of_queue)
qed

lemma encoded_length_less:
  assumes "text \<noteq> []" and "length text < 2 ^ 31" and "card (set text) < 256"
  shows "\<exists>hc. buildTree tie new_HuffmanCoding text = Inr hc
     \<and> length (snd (encode hc text)) < 8 * length text"
proof -
  from assms(1,2) obtain r where r:
    "buildTree tie new_HuffmanCoding text =
       Inr \<lparr>root = Some r, codes = generateCodes (Some r) [] Map.empty,
            frequencies = foldl increment [] text\<rparr>"
    "full (Some r)" "distinct (symbols (Some r))" "set (symbols (Some r)) = set text"
    "cost (Some r) \<le> 8 * length text"
    "length (concat (map (path_of (Some r)) text)) = cost (Some r)"
    "\<forall>lf \<in> set (leaves (Some r)). unat (freq lf) = count_list text (sym lf)"
    by (rule new_codec)
  from new_tree_cost_strict [OF assms, of tie] obtain r' where r':
    "merge_loop tie (leaves_of (foldl increment [] text)) = [r']
     \<and> cost (Some r') < 8 * length text"
    by (elim exE)
  then have "buildTree tie new_HuffmanCoding text =
       Inr \<lparr>root = Some r', codes = generateCodes (Some r') [] Map.empty,
            frequencies = foldl increment [] text\<rparr>"
    by (simp add: buildTree_def new_HuffmanCoding_def Let_def pq_top_single
        del: generateCodes.simps)
  with r(1) have "r' = r" by simp
  with r' have strict: "cost (Some r) < 8 * length text" by simp
  define hc where "hc = \<lparr>root = Some r, codes = generateCodes (Some r) [] Map.empty,
            frequencies = foldl increment [] text\<rparr>"
  have sub: "set text \<subseteq> set (symbols (Some r))" using r(4) by simp
  have "length (snd (encode hc text)) < 8 * length text"
  proof (cases "isLeaf r")
    case True
    then have "length (snd (encode hc text)) = length text"
      using sub hc_def by (rule encode_single_leaf)
    with assms(1) show ?thesis by simp
  next
    case False
    from codec_inner(1) [OF r(2,3) False sub hc_def]
    have "snd (encode hc text) = concat (map (path_of (Some r)) text)" by simp
    with strict r(6) show ?thesis by simp
  qed
  with r(1) show ?thesis unfolding hc_def by (intro exI [of _ hc]) (simp add: hc_def)
qed

section \<open>The text of all symbols\<close>

lemma all_chars_facts:
  "distinct all_chars" "set all_chars = UNIV" "length all_chars = 256" "all_chars \<noteq> []"
proof -
  show "distinct all_chars"
    unfolding all_chars_def using inj_on_char_of_nat by (simp add: distinct_map)
  show "set all_chars = UNIV"
    unfolding all_chars_def using UNIV_char_of_nat by simp
  show "length all_chars = 256" by (simp add: all_chars_def)
  then show "all_chars \<noteq> []" by auto
qed

lemma kraft_point: "(10 - real d) / 2 \<le> 256 * (1/2) ^ d"
proof (cases "d < 10")
  case True
  then have "d \<in> {0,1,2,3,4,5,6,7,8,9}" by auto
  then show ?thesis by (elim insertE emptyE) (simp_all add: power_divide)
next
  case False
  then have "(10 - real d) / 2 \<le> 0" by simp
  also have "0 \<le> 256 * (1/2 :: real) ^ d" by simp
  finally show ?thesis .
qed

lemma count_list_distinct: "distinct xs \<Longrightarrow> x \<in> set xs \<Longrightarrow> count_list xs x = 1"
  by (induction xs) (auto simp: count_list_0_iff)

lemma half_sum:
  "(\<Sum>x\<leftarrow>xs. (10 - real (f x)) / 2) = (10 * real (length xs) - real (\<Sum>x\<leftarrow>xs. f x)) / 2"
  by (induction xs) (simp_all add: field_simps)

text \<open>Kraft's equality for a tree whose nodes have two children or none.\<close>

lemma kraft_full: "full n \<Longrightarrow> (\<Sum>lf\<leftarrow>leaves n. (1/2) ^ length (path lf)) = (1::real)"
proof (induction n rule: leaves.induct)
  case 1
  then show ?case by simp
next
  case (2 c f l r)
  show ?case
  proof (cases "l = None \<and> r = None")
    case True
    then show ?thesis by simp
  next
    case False
    with "2.prems" have fl: "full l" "full r" by auto
    have "(\<Sum>lf\<leftarrow>leaves (Some (Node c f l r)). (1/2) ^ length (path lf))
        = (\<Sum>lf\<leftarrow>leaves l. (1/2) * (1/2) ^ length (path lf))
        + (\<Sum>lf\<leftarrow>leaves r. (1/2) * ((1/2 :: real) ^ length (path lf)))"
      using False by (simp add: comp_def deeper_def)
    also have "\<dots> = (1/2) * (\<Sum>lf\<leftarrow>leaves l. (1/2) ^ length (path lf))
        + (1/2) * (\<Sum>lf\<leftarrow>leaves r. (1/2 :: real) ^ length (path lf))"
      by (simp only: sum_list_const_mult)
    also have "\<dots> = 1"
      using "2.IH"(1) [OF False fl(1)] "2.IH"(2) [OF False fl(2)] by simp
    finally show ?thesis .
  qed
qed

lemma depth_sum_lower:
  assumes "full n" and "length (leaves n) = 256"
  shows "2048 \<le> (\<Sum>lf\<leftarrow>leaves n. length (path lf))"
proof -
  have "(\<Sum>lf\<leftarrow>leaves n. (10 - real (length (path lf))) / 2)
      \<le> (\<Sum>lf\<leftarrow>leaves n. 256 * (1/2) ^ length (path lf))"
    by (rule sum_list_mono) (rule kraft_point)
  also have "\<dots> = 256 * (\<Sum>lf\<leftarrow>leaves n. (1/2) ^ length (path lf))"
    by (simp only: sum_list_const_mult)
  also have "\<dots> = 256" using kraft_full [OF assms(1)] by simp
  finally have "(10 * real (length (leaves n))
      - real (\<Sum>lf\<leftarrow>leaves n. length (path lf))) / 2 \<le> 256"
    by (simp only: half_sum)
  then have "2048 \<le> real (\<Sum>lf\<leftarrow>leaves n. length (path lf))"
    by (simp add: assms(2))
  then show ?thesis by linarith
qed

lemma all_chars_length:
  "\<exists>hc. buildTree tie new_HuffmanCoding all_chars = Inr hc
     \<and> length (snd (encode hc all_chars)) = 8 * length all_chars"
proof -
  note ac = all_chars_facts
  have small: "length all_chars < 2 ^ 31" by (simp add: ac(3))
  from ac(4) small obtain r where r:
    "buildTree tie new_HuffmanCoding all_chars =
       Inr \<lparr>root = Some r, codes = generateCodes (Some r) [] Map.empty,
            frequencies = foldl increment [] all_chars\<rparr>"
    "full (Some r)" "distinct (symbols (Some r))" "set (symbols (Some r)) = set all_chars"
    "cost (Some r) \<le> 8 * length all_chars"
    "length (concat (map (path_of (Some r)) all_chars)) = cost (Some r)"
    "\<forall>lf \<in> set (leaves (Some r)). unat (freq lf) = count_list all_chars (sym lf)"
    by (rule new_codec)
  define hc where "hc = \<lparr>root = Some r, codes = generateCodes (Some r) [] Map.empty,
            frequencies = foldl increment [] all_chars\<rparr>"
  have "length (symbols (Some r)) = card (set (symbols (Some r)))"
    using r(3) by (simp add: distinct_card)
  also have "\<dots> = 256" by (simp add: r(4) ac(2) card_UNIV_char)
  finally have n: "length (leaves (Some r)) = 256" by (simp add: symbols_leaves)
  then have "2 \<le> length (symbols (Some r))" by (simp add: symbols_leaves)
  with r(2) have inner: "\<not> isLeaf r" by (rule root_inner)
  have sub: "set all_chars \<subseteq> set (symbols (Some r))" using r(4) by simp
  from codec_inner(1) [OF r(2,3) inner sub hc_def]
  have len: "length (snd (encode hc all_chars)) = cost (Some r)" by (simp add: r(6))
  have "cost (Some r) = (\<Sum>lf\<leftarrow>leaves (Some r). length (path lf))"
    unfolding cost_def
  proof (rule arg_cong [where f = sum_list], rule map_cong [OF refl])
    fix lf assume lf: "lf \<in> set (leaves (Some r))"
    then have "sym lf \<in> set all_chars" by (simp add: ac(2))
    with ac(1) have "count_list all_chars (sym lf) = 1" by (rule count_list_distinct)
    with r(7) lf show "unat (freq lf) * length (path lf) = length (path lf)" by simp
  qed
  with depth_sum_lower [OF r(2) n] have "2048 \<le> cost (Some r)" by simp
  with r(5) have "cost (Some r) = 8 * length all_chars" by (simp add: ac(3))
  with len r(1) show ?thesis by (intro exI [of _ hc]) (simp add: hc_def)
qed

section \<open>A root that is a leaf, and prefix-free tables\<close>

lemma single_symbol_leaf:
  assumes "full (Some r)" and "length (symbols (Some r)) = 1"
  shows "isLeaf r"
proof (rule ccontr)
  assume inner: "\<not> isLeaf r"
  obtain c f l rr where r: "r = Node c f l rr" by (cases r)
  with inner assms(1) have "full l" "full rr" by auto
  then have "paths l \<noteq> []" "paths rr \<noteq> []" by (simp_all add: full_paths_nonempty)
  then have "1 \<le> length (symbols l)" "1 \<le> length (symbols rr)"
    by (simp_all add: symbols_def Suc_le_eq)
  with inner r have "2 \<le> length (symbols (Some r))" by simp
  with assms(2) show False by simp
qed

lemma decode_loop_leaf_root:
  "isLeaf r \<Longrightarrow> decode_loop (Some r) (Some r) (b # bs) res = Inl NullDereference"
  by (cases r) (simp add: isLeaf_def)

lemma roundtrip_one_symbol:
  assumes "text \<noteq> []" and "set text = {c}"
  shows "roundtrip tie new_HuffmanCoding text = Inl NullDereference"
proof -
  have d: "distinct (map fst (frequencies new_HuffmanCoding))"
    by (simp add: new_HuffmanCoding_def)
  from assms(1) have ne: "frequencies new_HuffmanCoding \<noteq> [] \<or> text \<noteq> []" by simp
  from d ne obtain r where r:
    "buildTree tie new_HuffmanCoding text =
       Inr \<lparr>root = Some r, codes = generateCodes (Some r) [] (codes new_HuffmanCoding),
            frequencies = foldl increment (frequencies new_HuffmanCoding) text\<rparr>"
    "full (Some r)" "distinct (symbols (Some r))"
    "set (symbols (Some r)) = fst ` set (frequencies new_HuffmanCoding) \<union> set text"
    "length (symbols (Some r)) = card (fst ` set (frequencies new_HuffmanCoding) \<union> set text)"
    by (rule built_codec)
  define hc where "hc = \<lparr>root = Some r,
      codes = generateCodes (Some r) [] (codes new_HuffmanCoding),
      frequencies = foldl increment (frequencies new_HuffmanCoding) text\<rparr>"
  from r(5) assms(2) have "length (symbols (Some r)) = 1"
    by (simp add: new_HuffmanCoding_def)
  with r(2) have leaf: "isLeaf r" by (rule single_symbol_leaf)
  have sub: "set text \<subseteq> set (symbols (Some r))"
    using r(4) by (simp add: new_HuffmanCoding_def)
  have known: "\<forall>x \<in> set text. codes hc x \<noteq> None"
  proof
    fix x assume "x \<in> set text"
    with sub have "x \<in> set (symbols (Some r))" by auto
    from generateCodes_root [OF r(2,3) this, of "codes new_HuffmanCoding"]
    show "codes hc x \<noteq> None" by (simp add: hc_def del: generateCodes.simps)
  qed
  then have enc: "encode hc text = (hc, concat (map (code_or_empty (codes hc)) text))"
    by (rule encode_known)
  have "length (snd (encode hc text)) = length text"
    using leaf sub hc_def by (rule encode_single_leaf)
  with assms(1) obtain b bs where "concat (map (code_or_empty (codes hc)) text) = b # bs"
    unfolding enc by (cases "concat (map (code_or_empty (codes hc)) text)") auto
  then have "decode hc (concat (map (code_or_empty (codes hc)) text)) = Inl NullDereference"
    using decode_loop_leaf_root [OF leaf, of b bs "[]"] by (simp add: decode_def hc_def)
  then show ?thesis
    by (simp add: roundtrip_def r(1) hc_def [symmetric] enc del: generateCodes.simps)
qed

lemma prefix_free_built:
  assumes "distinct (map fst (frequencies hc))" and "frequencies hc \<noteq> [] \<or> text \<noteq> []"
    and "dom (codes hc) \<subseteq> fst ` set (frequencies hc) \<union> set text"
  shows "\<exists>hc'. buildTree tie hc text = Inr hc' \<and> prefix_free (codes hc')"
proof -
  from assms(1,2) obtain r where r:
    "buildTree tie hc text =
       Inr \<lparr>root = Some r, codes = generateCodes (Some r) [] (codes hc),
            frequencies = foldl increment (frequencies hc) text\<rparr>"
    "full (Some r)" "distinct (symbols (Some r))"
    "set (symbols (Some r)) = fst ` set (frequencies hc) \<union> set text"
    "length (symbols (Some r)) = card (fst ` set (frequencies hc) \<union> set text)"
    by (rule built_codec)
  define cs where "cs = generateCodes (Some r) [] (codes hc)"
  have known: "c \<in> set (symbols (Some r))" if "cs c = Some x" for c x
  proof (rule ccontr)
    assume out: "c \<notin> set (symbols (Some r))"
    then have "cs c = codes hc c"
      by (simp add: cs_def generateCodes_other del: generateCodes.simps)
    moreover from out assms(3) r(4) have "codes hc c = None" by auto
    ultimately show False using that by simp
  qed
  have "prefix_free cs"
    unfolding prefix_free_def
  proof (intro allI impI)
    fix a b x y
    assume h: "cs a = Some x \<and> cs b = Some y \<and> a \<noteq> b"
    then have ab: "a \<in> set (symbols (Some r))" "b \<in> set (symbols (Some r))"
      by (auto dest: known)
    have inner: "\<not> isLeaf r"
    proof
      assume "isLeaf r"
      then have "symbols (Some r) = [character r]" by (simp add: symbols_def paths_leaf)
      with ab h show False by simp
    qed
    from ab inner have "cs a = Some (path_of (Some r) a)" "cs b = Some (path_of (Some r) b)"
      using generateCodes_root [OF r(2,3), of _ "codes hc"]
      by (simp_all add: cs_def del: generateCodes.simps)
    with h have xy: "x = path_of (Some r) a" "y = path_of (Some r) b" by simp_all
    show "\<not> prefix x y"
    proof
      assume "prefix x y"
      with paths_unique [OF r(2) path_of_in [OF ab(1)] path_of_in [OF ab(2)]] xy
      have "a = b" by simp
      with h show False by simp
    qed
  qed
  with r(1) show ?thesis by (simp add: cs_def del: generateCodes.simps)
qed

lemma empty_code_not_prefix_free:
  assumes "cs a = Some []" and "cs b \<noteq> None" and "a \<noteq> b"
  shows "\<not> prefix_free cs"
proof
  assume pf: "prefix_free cs"
  from assms(2) obtain y where "cs b = Some y" by auto
  with pf assms(1,3) have "\<not> prefix [] y" unfolding prefix_free_def by blast
  then show False by simp
qed

section \<open>The claims\<close>

text \<open>
  C1. After buildTree(t), decode(encode(t)) is t, for every non-empty t. The code does
  this for every text with two or more distinct symbols (from a new object or a used one):
\<close>

lemma roundtrip_new:
  "2 \<le> card (set text) \<Longrightarrow> roundtrip tie new_HuffmanCoding text = Inr text"
  using roundtrip_several_symbols [of new_HuffmanCoding "text" tie]
  by (simp add: new_HuffmanCoding_def)

text \<open>
  C1, for a text of one distinct symbol: the root is a leaf, decode steps to its null left
  child and reads it (for every such text: lemma \<open>roundtrip_one_symbol\<close>).
\<close>

theorem roundtrip_single_symbol:
  "roundtrip first_tie new_HuffmanCoding ''a'' = Inl NullDereference"
  by (simp add: roundtrip_def buildTree_def new_HuffmanCoding_def leaves_of_def
      pq_push_def pq_top_single encode_def decode_def)

text \<open>
  C2. For the input aaaa the code table maps a to 0 and encode gives 0000; decode of 0000
  does not give aaaa back but reads through the null child of the leaf root.
\<close>

theorem single_symbol_aaaa:
  "case buildTree first_tie new_HuffmanCoding ''aaaa'' of
     Inl e \<Rightarrow> False
   | Inr hc \<Rightarrow> codes hc (CHR ''a'') = Some ''0'' \<and> snd (encode hc ''aaaa'') = ''0000''
       \<and> decode hc ''0000'' = Inl NullDereference"
  by (simp add: buildTree_def new_HuffmanCoding_def leaves_of_def
      pq_push_def pq_top_single encode_def decode_def)

text \<open>
  C3. buildTree on a zero-length input, on a new object: no guard, the queue is empty and
  its top is read.
\<close>

theorem buildTree_empty_text:
  "buildTree tie new_HuffmanCoding [] = Inl TopOfEmptyQueue"
  by (simp add: buildTree_def new_HuffmanCoding_def leaves_of_def)

text \<open>
  C4, as stated, fails: encode of a text with a symbol that has no code returns a
  bitstring, the one of the text without that symbol.
\<close>

theorem encode_absent_symbol_counterexample:
  "case buildTree first_tie new_HuffmanCoding ''ab'' of
     Inl e \<Rightarrow> False
   | Inr hc \<Rightarrow> codes hc (CHR ''z'') = None
       \<and> snd (encode hc ''azb'') = snd (encode hc ''ab'')
       \<and> codes (fst (encode hc ''azb'')) (CHR ''z'') = Some []"
  by (simp add: run_simps)

text \<open>
  C4, amended: encode never fails. Its result is the concatenation of the codes of the
  symbols of the text, where a symbol without a code contributes no bits and is entered
  into the code table with the empty code.
\<close>

theorem encode_absent_symbol:
  "snd (encode hc text) = concat (map (code_or_empty (codes hc)) text)
   \<and> (\<forall>c \<in> set text. codes hc c = None \<longrightarrow>
        code_or_empty (codes hc) c = [] \<and> codes (fst (encode hc text)) c = Some [])"
  by (simp add: encode_def encode_loop_eq code_or_empty_def)

theorem encode_absent_symbol_witness:
  "snd (encode new_HuffmanCoding ''z'') = []
   \<and> codes new_HuffmanCoding (CHR ''z'') = None
   \<and> codes (fst (encode new_HuffmanCoding ''z'')) (CHR ''z'') = Some []"
  using encode_absent_symbol [of new_HuffmanCoding "''z''"]
  by (simp add: new_HuffmanCoding_def code_or_empty_def)

text \<open>
  C5, as stated, fails: in the tree of abbcccc the code of a is 00; on the bits 10 decode
  emits c, is left inside the tree by the last bit and returns c.
\<close>

theorem decode_trailing_bits_counterexample:
  "case buildTree first_tie new_HuffmanCoding ''abbcccc'' of
     Inl e \<Rightarrow> False
   | Inr hc \<Rightarrow> codes hc (CHR ''a'') = Some ''00'' \<and> decode hc ''10'' = Inr ''c''"
  by (simp add: run_simps)

text \<open>
  C5, amended: when the bits are the encoding of a sequence t followed by a non-empty
  proper prefix of a code, so that the last bit leaves the pointer inside the tree, decode
  does not fail: it returns t and drops the partial trailing symbol.
\<close>

theorem decode_drops_trailing_bits:
  assumes "buildTree tie new_HuffmanCoding text = Inr hc" and "2 \<le> card (set text)"
    and "set t \<subseteq> set text" and "codes hc c = Some code"
    and "strict_prefix p code" and "p \<noteq> []"
  shows "decode hc (snd (encode hc t) @ p) = Inr t"
proof -
  have d: "distinct (map fst (frequencies new_HuffmanCoding))"
    by (simp add: new_HuffmanCoding_def)
  from assms(2) have ne: "frequencies new_HuffmanCoding \<noteq> [] \<or> text \<noteq> []" by auto
  from d ne obtain r where r:
    "buildTree tie new_HuffmanCoding text =
       Inr \<lparr>root = Some r, codes = generateCodes (Some r) [] (codes new_HuffmanCoding),
            frequencies = foldl increment (frequencies new_HuffmanCoding) text\<rparr>"
    "full (Some r)" "distinct (symbols (Some r))"
    "set (symbols (Some r)) = fst ` set (frequencies new_HuffmanCoding) \<union> set text"
    "length (symbols (Some r)) = card (fst ` set (frequencies new_HuffmanCoding) \<union> set text)"
    by (rule built_codec)
  from r(1) assms(1) have hc: "hc = \<lparr>root = Some r,
      codes = generateCodes (Some r) [] (codes new_HuffmanCoding),
      frequencies = foldl increment (frequencies new_HuffmanCoding) text\<rparr>"
    by simp
  from r(2,5) assms(2) have inner: "\<not> isLeaf r"
    by (intro root_inner) (auto simp: new_HuffmanCoding_def)
  from r(4) assms(3) have sub: "set t \<subseteq> set (symbols (Some r))"
    by (auto simp: new_HuffmanCoding_def)
  note cd = codec_inner [OF r(2,3) inner sub hc]
  have csym: "c \<in> set (symbols (Some r))"
  proof (rule ccontr)
    assume "c \<notin> set (symbols (Some r))"
    then have "codes hc c = None"
      by (simp add: hc generateCodes_other new_HuffmanCoding_def del: generateCodes.simps)
    with assms(4) show False by simp
  qed
  then have "codes hc c = Some (path_of (Some r) c)"
    using generateCodes_root [OF r(2,3), of c "codes new_HuffmanCoding"] inner
    by (simp add: hc del: generateCodes.simps)
  with assms(4) have code: "code = path_of (Some r) c" by simp
  from csym have "(c, code) \<in> set (paths (Some r))" unfolding code by (rule path_of_in)
  with r(2) have "decode_loop (Some r) (Some r) p t = Inr t"
    using assms(5) by (rule decode_loop_partial)
  then show ?thesis by (simp add: cd del: generateCodes.simps)
qed

lemma built_abbcccc:
  "buildTree first_tie new_HuffmanCoding ''abbcccc'' =
     Inr \<lparr>root = Some (Node (CHR 0x00) 7
              (Some (Node (CHR 0x00) 3 (Some (Node (CHR ''a'') 1 None None))
                                        (Some (Node (CHR ''b'') 2 None None))))
              (Some (Node (CHR ''c'') 4 None None))),
          codes = [CHR ''a'' \<mapsto> ''00'', CHR ''b'' \<mapsto> ''01'', CHR ''c'' \<mapsto> ''1''],
          frequencies = [(CHR ''a'', 1), (CHR ''b'', 2), (CHR ''c'', 4)]\<rparr>"
  by (simp add: run_simps)

theorem decode_drops_trailing_bits_witness:
  "\<exists>hc. buildTree first_tie new_HuffmanCoding ''abbcccc'' = Inr hc
     \<and> 2 \<le> card (set ''abbcccc'') \<and> set ''c'' \<subseteq> set ''abbcccc''
     \<and> codes hc (CHR ''a'') = Some ''00'' \<and> strict_prefix ''0'' ''00''
     \<and> decode hc (snd (encode hc ''c'') @ ''0'') = Inr ''c''"
proof -
  let ?hc = "\<lparr>root = Some (Node (CHR 0x00) 7
              (Some (Node (CHR 0x00) 3 (Some (Node (CHR ''a'') 1 None None))
                                        (Some (Node (CHR ''b'') 2 None None))))
              (Some (Node (CHR ''c'') 4 None None))),
          codes = [CHR ''a'' \<mapsto> ''00'', CHR ''b'' \<mapsto> ''01'', CHR ''c'' \<mapsto> ''1''],
          frequencies = [(CHR ''a'', 1), (CHR ''b'', 2), (CHR ''c'', 4 :: 32 word)]\<rparr>"
  have h1: "buildTree first_tie new_HuffmanCoding ''abbcccc'' = Inr ?hc" by (rule built_abbcccc)
  have h2: "2 \<le> card (set ''abbcccc'')" by simp
  have h3: "set ''c'' \<subseteq> set ''abbcccc''" by simp
  have h4: "codes ?hc (CHR ''a'') = Some ''00''" by simp
  have h5: "strict_prefix ''0'' ''00''" by simp
  have h6: "''0'' \<noteq> []" by simp
  from decode_drops_trailing_bits [OF h1 h2 h3 h4 h5 h6] h1 h2 h3 h4 h5
  show ?thesis by blast
qed

text \<open>
  C6, as stated, fails on a used object: after buildTree(ab) and encode(z), which leaves
  the empty code for z in the code table (see C8), buildTree(ab) keeps that entry, and
  the empty code is a proper prefix of the code of a.
\<close>

theorem stale_code_counterexample:
  "case buildTree first_tie new_HuffmanCoding ''ab'' of
     Inl e \<Rightarrow> False
   | Inr hc1 \<Rightarrow>
      (case buildTree first_tie (fst (encode hc1 ''z'')) ''ab'' of
         Inl e \<Rightarrow> False
       | Inr hc2 \<Rightarrow> codes hc2 (CHR ''z'') = Some [] \<and> codes hc2 (CHR ''a'') \<noteq> None
           \<and> \<not> prefix_free (codes hc2))"
  by (simp add: run_simps)
    (rule empty_code_not_prefix_free [where a = "CHR ''z''" and b = "CHR ''a''"], simp_all)

text \<open>
  C6, amended: for every non-empty input, on an object whose code table has no entry for
  a symbol outside its frequency table and the input (a new object, or a used one on
  which encode has met known symbols only), buildTree succeeds and the code table it
  produces is prefix-free: the code of one symbol is never a prefix of the code of another
  (so neither a proper prefix nor equal).
\<close>

theorem codes_prefix_free:
  assumes "text \<noteq> []" and "distinct (map fst (frequencies hc))"
    and "dom (codes hc) \<subseteq> fst ` set (frequencies hc) \<union> set text"
  shows "\<exists>hc'. buildTree tie hc text = Inr hc' \<and> prefix_free (codes hc')"
  using assms prefix_free_built [of hc "text" tie] by simp

theorem codes_prefix_free_witness:
  "''bc'' \<noteq> [] \<and> distinct (map fst [(CHR ''a'', 1 :: 32 word)])
   \<and> dom [CHR ''a'' \<mapsto> ''0''] \<subseteq> fst ` set [(CHR ''a'', 1 :: 32 word)] \<union> set ''bc''
   \<and> (\<exists>hc'. buildTree first_tie \<lparr>root = None, codes = [CHR ''a'' \<mapsto> ''0''],
                   frequencies = [(CHR ''a'', 1)]\<rparr> ''bc'' = Inr hc'
          \<and> prefix_free (codes hc'))"
proof -
  let ?hc = "\<lparr>root = None, codes = [CHR ''a'' \<mapsto> ''0''],
      frequencies = [(CHR ''a'', 1 :: 32 word)]\<rparr>"
  have h1: "''bc'' \<noteq> []" by simp
  have h2: "distinct (map fst (frequencies ?hc))" by simp
  have h3: "dom (codes ?hc) \<subseteq> fst ` set (frequencies ?hc) \<union> set ''bc''" by simp
  from codes_prefix_free [OF h1 h2 h3, of first_tie] h3 show ?thesis by simp
qed

text \<open>
  C7, as stated, fails: for the text of all 256 symbols, each once, the encoding has
  exactly 8 bits per symbol, and the alphabet has 256 symbols, not one or two.
\<close>

theorem encoded_length_equality_counterexample:
  "\<exists>hc. buildTree first_tie new_HuffmanCoding all_chars = Inr hc
     \<and> length (snd (encode hc all_chars)) = 8 * length all_chars
     \<and> card (set all_chars) = 256"
  using all_chars_length [of first_tie] by (simp add: all_chars_facts(2) card_UNIV_char)

text \<open>
  C7, amended: for every non-empty text of fewer than 2 ^ 31 symbols (so that no count
  overflows), buildTree on a new object succeeds and the encoding of the text has at most
  8 bits per symbol, whatever the tie-breaking of the queue; the length is strictly less
  unless all 256 symbols occur in the text.
\<close>

theorem encoded_length_bound:
  assumes "text \<noteq> []" and "length text < 2 ^ 31"
  shows "\<exists>hc. buildTree tie new_HuffmanCoding text = Inr hc
     \<and> length (snd (encode hc text)) \<le> 8 * length text
     \<and> (card (set text) < 256 \<longrightarrow> length (snd (encode hc text)) < 8 * length text)"
proof -
  from encoded_length_le [OF assms, of tie] obtain hc where hc:
    "buildTree tie new_HuffmanCoding text = Inr hc"
    "length (snd (encode hc text)) \<le> 8 * length text"
    by blast
  have "length (snd (encode hc text)) < 8 * length text" if "card (set text) < 256"
  proof -
    from encoded_length_less [OF assms that, of tie] obtain hc' where
      "buildTree tie new_HuffmanCoding text = Inr hc'"
      "length (snd (encode hc' text)) < 8 * length text"
      by blast
    with hc(1) show ?thesis by simp
  qed
  with hc show ?thesis by blast
qed

theorem encoded_length_bound_witness:
  "''abbcccc'' \<noteq> [] \<and> length ''abbcccc'' < 2 ^ 31 \<and> card (set ''abbcccc'') < 256
   \<and> (\<exists>hc. buildTree first_tie new_HuffmanCoding ''abbcccc'' = Inr hc
        \<and> length (snd (encode hc ''abbcccc'')) \<le> 8 * length ''abbcccc''
        \<and> length (snd (encode hc ''abbcccc'')) < 8 * length ''abbcccc'')"
proof -
  have h1: "''abbcccc'' \<noteq> []" by simp
  have h2: "length ''abbcccc'' < 2 ^ 31" by simp
  have h3: "card (set ''abbcccc'') < 256" by simp
  from encoded_length_bound [OF h1 h2, of first_tie] h3 obtain hc where
    "buildTree first_tie new_HuffmanCoding ''abbcccc'' = Inr hc"
    "length (snd (encode hc ''abbcccc'')) \<le> 8 * length ''abbcccc''"
    "length (snd (encode hc ''abbcccc'')) < 8 * length ''abbcccc''"
    by blast
  with h1 h2 h3 show ?thesis by blast
qed

text \<open>
  C8, as stated, fails: encode of a symbol that has no code enters the symbol into the
  code table.
\<close>

theorem encode_changes_codes_counterexample:
  "case buildTree first_tie new_HuffmanCoding ''ab'' of
     Inl e \<Rightarrow> False
   | Inr hc \<Rightarrow> codes hc (CHR ''z'') = None
       \<and> codes (fst (encode hc ''z'')) (CHR ''z'') = Some []
       \<and> fst (encode hc ''z'') \<noteq> hc"
proof -
  define hc where "hc = \<lparr>root = Some (Node (CHR 0x00) 2 (Some (Node (CHR ''a'') 1 None None))
                                        (Some (Node (CHR ''b'') 1 None None))),
          codes = [CHR ''a'' \<mapsto> ''0'', CHR ''b'' \<mapsto> ''1''],
          frequencies = [(CHR ''a'', 1), (CHR ''b'', 1 :: 32 word)]\<rparr>"
  have b: "buildTree first_tie new_HuffmanCoding ''ab'' = Inr hc"
    by (simp add: run_simps hc_def)
  have z: "codes hc (CHR ''z'') = None" by (simp add: hc_def)
  have e: "codes (fst (encode hc ''z'')) (CHR ''z'') = Some []"
    by (simp add: encode_def hc_def)
  have "fst (encode hc ''z'') \<noteq> hc"
  proof
    assume "fst (encode hc ''z'') = hc"
    then have "codes (fst (encode hc ''z'')) (CHR ''z'') = codes hc (CHR ''z'')" by simp
    with z e show False by simp
  qed
  with z e show ?thesis unfolding b by simp
qed

text \<open>
  C8, amended: encode leaves the tree and the frequency table unchanged, and the code
  table too when every symbol of the text has a code; a symbol of the text that has no
  code is entered with the empty code, and no other entry changes.
\<close>

theorem encode_frame:
  "root (fst (encode hc text)) = root hc
   \<and> frequencies (fst (encode hc text)) = frequencies hc
   \<and> (\<forall>c. codes (fst (encode hc text)) c =
          (if c \<in> set text \<and> codes hc c = None then Some [] else codes hc c))
   \<and> ((\<forall>c \<in> set text. codes hc c \<noteq> None) \<longrightarrow> fst (encode hc text) = hc)"
proof -
  have "fst (encode hc text) = hc" if "\<forall>c \<in> set text. codes hc c \<noteq> None"
    using encode_known [OF that] by simp
  then show ?thesis by (simp add: encode_def encode_loop_eq)
qed

theorem encode_frame_witness:
  "[CHR ''a'' \<mapsto> ''0'', CHR ''b'' \<mapsto> ''1''] (CHR ''b'') \<noteq> None
   \<and> [CHR ''a'' \<mapsto> ''0'', CHR ''b'' \<mapsto> ''1''] (CHR ''a'') \<noteq> None
   \<and> fst (encode \<lparr>root = None, codes = [CHR ''a'' \<mapsto> ''0'', CHR ''b'' \<mapsto> ''1''],
                    frequencies = []\<rparr> ''ba'')
     = \<lparr>root = None, codes = [CHR ''a'' \<mapsto> ''0'', CHR ''b'' \<mapsto> ''1''], frequencies = []\<rparr>"
  using encode_frame [of "\<lparr>root = None, codes = [CHR ''a'' \<mapsto> ''0'', CHR ''b'' \<mapsto> ''1''],
                    frequencies = []\<rparr>" "''ba''"]
  by simp

text \<open>
  C9, as stated, fails: buildTree(c) after buildTree(ab) on the same object keeps the
  counts of a and b, and the tree and the code table have a, b and c; on a new object
  buildTree(c) gives the table of c alone.
\<close>

theorem buildTree_accumulates_counterexample:
  "case buildTree first_tie new_HuffmanCoding ''ab'' of
     Inl e \<Rightarrow> False
   | Inr hc1 \<Rightarrow>
      (case buildTree first_tie hc1 ''c'' of
         Inl e \<Rightarrow> False
       | Inr hc2 \<Rightarrow>
          (case buildTree first_tie new_HuffmanCoding ''c'' of
             Inl e \<Rightarrow> False
           | Inr hc3 \<Rightarrow>
               frequencies hc2 = [(CHR ''a'', 1), (CHR ''b'', 1), (CHR ''c'', 1)]
               \<and> frequencies hc3 = [(CHR ''c'', 1)]
               \<and> codes hc2 (CHR ''a'') \<noteq> None \<and> codes hc3 (CHR ''a'') = None
               \<and> set (symbols (root hc2)) = {CHR ''a'', CHR ''b'', CHR ''c''}
               \<and> set (symbols (root hc3)) = {CHR ''c''}))"
  by (simp add: run_simps) auto

text \<open>
  C9, amended: buildTree adds the counts of t to the frequency table the object already
  has (on a new object: the counts of t alone), the leaves of the new tree are the symbols
  of that table, each once, and the code table maps every symbol of the new tree to its
  path in that tree (to 0 when the root is a leaf); it keeps the earlier entry of any
  other symbol. buildTree succeeds whenever the text or the earlier table is non-empty.
\<close>

theorem buildTree_state:
  assumes "distinct (map fst (frequencies hc))" and "frequencies hc \<noteq> [] \<or> text \<noteq> []"
  shows "\<exists>hc' r. buildTree tie hc text = Inr hc'
     \<and> fst ` set (frequencies hc') = fst ` set (frequencies hc) \<union> set text
     \<and> (\<forall>c. count_of (frequencies hc') c = count_of (frequencies hc) c + of_nat (count_list text c))
     \<and> root hc' = Some r \<and> full (Some r) \<and> distinct (symbols (Some r))
     \<and> set (symbols (Some r)) = fst ` set (frequencies hc')
     \<and> (\<forall>(c, p) \<in> set (paths (Some r)). codes hc' c = Some (if p = [] then ''0'' else p))
     \<and> (\<forall>c. c \<notin> set (symbols (Some r)) \<longrightarrow> codes hc' c = codes hc c)"
proof -
  from assms obtain r where r:
    "buildTree tie hc text =
       Inr \<lparr>root = Some r, codes = generateCodes (Some r) [] (codes hc),
            frequencies = foldl increment (frequencies hc) text\<rparr>"
    "full (Some r)" "distinct (symbols (Some r))"
    "set (symbols (Some r)) = fst ` set (frequencies hc) \<union> set text"
    "length (symbols (Some r)) = card (fst ` set (frequencies hc) \<union> set text)"
    by (rule built_codec)
  define hc' where "hc' = \<lparr>root = Some r, codes = generateCodes (Some r) [] (codes hc),
            frequencies = foldl increment (frequencies hc) text\<rparr>"
  have 1: "buildTree tie hc text = Inr hc'" by (simp only: r(1) hc'_def)
  have 2: "fst ` set (frequencies hc') = fst ` set (frequencies hc) \<union> set text"
    by (simp add: hc'_def set_keys_count)
  have 3: "\<forall>c. count_of (frequencies hc') c
      = count_of (frequencies hc) c + of_nat (count_list text c)"
    by (simp add: hc'_def count_of_count)
  have 4: "root hc' = Some r" by (simp add: hc'_def)
  have 5: "set (symbols (Some r)) = fst ` set (frequencies hc')" using r(4) 2 by simp
  have 6: "\<forall>(c, p) \<in> set (paths (Some r)). codes hc' c = Some (if p = [] then ''0'' else p)"
  proof (clarify)
    fix c p
    assume "(c, p) \<in> set (paths (Some r))"
    with r(3) have "generateCodes (Some r) [] (codes hc) c
        = Some (if [] @ p = [] then ''0'' else [] @ p)"
      by (rule generateCodes_path)
    then show "codes hc' c = Some (if p = [] then ''0'' else p)"
      by (simp add: hc'_def del: generateCodes.simps)
  qed
  have 7: "\<forall>c. c \<notin> set (symbols (Some r)) \<longrightarrow> codes hc' c = codes hc c"
    by (simp add: hc'_def generateCodes_other del: generateCodes.simps)
  from 1 2 3 4 r(2) r(3) 5 6 7 show ?thesis by blast
qed

theorem buildTree_state_witness:
  "distinct (map fst [(CHR ''a'', 1 :: 32 word), (CHR ''b'', 1)])
   \<and> (\<exists>hc' r. buildTree first_tie \<lparr>root = None, codes = Map.empty,
                    frequencies = [(CHR ''a'', 1), (CHR ''b'', 1)]\<rparr> ''c'' = Inr hc'
        \<and> fst ` set (frequencies hc') = {CHR ''a'', CHR ''b'', CHR ''c''}
        \<and> root hc' = Some r \<and> set (symbols (Some r)) = fst ` set (frequencies hc'))"
proof -
  let ?hc = "\<lparr>root = None, codes = Map.empty,
      frequencies = [(CHR ''a'', 1 :: 32 word), (CHR ''b'', 1)]\<rparr>"
  have h1: "distinct (map fst (frequencies ?hc))" by simp
  have h2: "frequencies ?hc \<noteq> [] \<or> ''c'' \<noteq> []" by simp
  from buildTree_state [OF h1 h2, of first_tie] obtain hc' r where
    "buildTree first_tie ?hc ''c'' = Inr hc'"
    "fst ` set (frequencies hc') = fst ` set (frequencies ?hc) \<union> set ''c''"
    "root hc' = Some r" "set (symbols (Some r)) = fst ` set (frequencies hc')"
    by blast
  then show ?thesis by auto
qed

text \<open>
  C10. decode reads every character other than 0 as a move to the right: two inputs that
  agree once every character other than 0 is replaced by 1 give the same result, whatever
  the tree.
\<close>

theorem decode_reads_nonzero_as_one:
  "map as_bit xs = map as_bit ys \<Longrightarrow> decode hc xs = decode hc ys"
proof -
  assume eq: "map as_bit xs = map as_bit ys"
  have "decode hc xs = decode_loop (root hc) (root hc) (map as_bit xs) []"
    by (simp add: decode_def decode_loop_as_bit)
  also have "\<dots> = decode hc ys"
    unfolding eq by (simp add: decode_def decode_loop_as_bit)
  finally show ?thesis .
qed

theorem decode_reads_nonzero_as_one_witness:
  "map as_bit ''0x0!1'' = map as_bit ''01011''
   \<and> decode \<lparr>root = Some (Node (CHR 0x00) 7
              (Some (Node (CHR 0x00) 3 (Some (Node (CHR ''a'') 1 None None))
                                        (Some (Node (CHR ''b'') 2 None None))))
              (Some (Node (CHR ''c'') 4 None None))),
          codes = Map.empty, frequencies = []\<rparr> ''0x0!1'' = Inr ''bbc''"
proof -
  have h: "map as_bit ''0x0!1'' = map as_bit ''01011''" by (simp add: as_bit_def)
  from decode_reads_nonzero_as_one [OF h] h show ?thesis by (simp add: decode_def)
qed

end
